theory Spec2Isabelle
  imports Main "HOL-Library.Word" "HOL-Library.Multiset"
begin

section \<open>Characters and the string methods the program calls\<close>

text \<open>
  The program is \<^verbatim>\<open>phrases_counts.py\<close> (and its unigram-only sibling
  \<^verbatim>\<open>word_clouds.py\<close>, whose cleaning and tokenising functions are the same text).
  A Python \<^verbatim>\<open>str\<close> is a list of code points.  The functions that clean and
  tokenise a line are modelled on \<^typ>\<open>string\<close>, the texts whose code points are
  0..255; within that range the classifications below are the ones CPython uses for
  \<^verbatim>\<open>str.isspace\<close>, \<^verbatim>\<open>\d\<close>, \<^verbatim>\<open>\w\<close>, \<^verbatim>\<open>str.isdigit\<close> and \<^verbatim>\<open>str.lower\<close>.  The driver
  reads files with any code points; the section on text with any code point says
  how the functions go on there.
\<close>

definition cp :: "char \<Rightarrow> int" where
  "cp c = of_char c"

text \<open>\<^verbatim>\<open>str.isspace\<close>, which is also the class \<^verbatim>\<open>\s\<close> of \<^verbatim>\<open>re\<close> on \<^verbatim>\<open>str\<close> patterns.\<close>

definition is_space :: "char \<Rightarrow> bool" where
  "is_space c = (cp c \<in> {9, 10, 11, 12, 13, 28, 29, 30, 31, 32, 133, 160})"

text \<open>The class \<^verbatim>\<open>\d\<close>: the decimal digits.\<close>

definition is_decimal :: "char \<Rightarrow> bool" where
  "is_decimal c = (48 \<le> cp c \<and> cp c \<le> 57)"

text \<open>\<^verbatim>\<open>str.isdigit\<close> on one character: the decimal digits and the superscripts 1, 2, 3.\<close>

definition is_digit_char :: "char \<Rightarrow> bool" where
  "is_digit_char c = (is_decimal c \<or> cp c \<in> {178, 179, 185})"

text \<open>The class \<^verbatim>\<open>\w\<close>: alphanumeric characters and the underscore.\<close>

definition is_word :: "char \<Rightarrow> bool" where
  "is_word c = (let n = cp c in
     (48 \<le> n \<and> n \<le> 57) \<or> (65 \<le> n \<and> n \<le> 90) \<or> n = 95 \<or> (97 \<le> n \<and> n \<le> 122) \<or>
     n \<in> {170, 178, 179, 181, 185, 186, 188, 189, 190} \<or>
     (192 \<le> n \<and> n \<le> 214) \<or> (216 \<le> n \<and> n \<le> 246) \<or> (248 \<le> n \<and> n \<le> 255))"

definition lower_char :: "char \<Rightarrow> char" where
  "lower_char c = (let n = cp c in
     if (65 \<le> n \<and> n \<le> 90) \<or> (192 \<le> n \<and> n \<le> 214) \<or> (216 \<le> n \<and> n \<le> 222)
     then char_of (n + 32) else c)"

text \<open>\<^verbatim>\<open>str.lower\<close>.\<close>

definition str_lower :: "string \<Rightarrow> string" where
  "str_lower s = map lower_char s"

text \<open>\<^verbatim>\<open>str.isdigit\<close>: false on the empty string.\<close>

definition isdigit :: "string \<Rightarrow> bool" where
  "isdigit s = (s \<noteq> [] \<and> list_all is_digit_char s)"

text \<open>\<^verbatim>\<open>s.rstrip(chars)\<close> and \<^verbatim>\<open>s.strip()\<close>.\<close>

definition rstrip_chars :: "char list \<Rightarrow> string \<Rightarrow> string" where
  "rstrip_chars chars s = rev (dropWhile (\<lambda>c. c \<in> set chars) (rev s))"

definition strip :: "string \<Rightarrow> string" where
  "strip s = dropWhile is_space (rev (dropWhile is_space (rev s)))"

text \<open>\<^verbatim>\<open>s.startswith(c)\<close> and \<^verbatim>\<open>s.endswith(c)\<close> for a one-character argument.\<close>

definition startswith :: "string \<Rightarrow> char \<Rightarrow> bool" where
  "startswith s c = (case s of [] \<Rightarrow> False | x # _ \<Rightarrow> x = c)"

definition endswith :: "string \<Rightarrow> char \<Rightarrow> bool" where
  "endswith s c = (case rev s of [] \<Rightarrow> False | x # _ \<Rightarrow> x = c)"

text \<open>
  \<^verbatim>\<open>s.split()\<close>: the maximal runs of non-whitespace characters, in order.  The first
  argument is the word being collected.
\<close>

fun split_acc :: "string \<Rightarrow> string \<Rightarrow> string list" where
  "split_acc w [] = (if w = [] then [] else [w])"
| "split_acc w (c # cs) =
     (if is_space c then (if w = [] then split_acc [] cs else w # split_acc [] cs)
      else split_acc (w @ [c]) cs)"

definition split :: "string \<Rightarrow> string list" where
  "split s = split_acc [] s"

text \<open>
  \<^verbatim>\<open>s.splitlines()\<close>: lines end at LF, CR, CR LF, VT, FF, FS, GS, RS and NEL; the
  terminators are dropped and a final terminator opens no further line.
\<close>

definition is_linebreak :: "char \<Rightarrow> bool" where
  "is_linebreak c = (cp c \<in> {10, 11, 12, 13, 28, 29, 30, 133})"

fun splitlines_acc :: "string \<Rightarrow> string \<Rightarrow> string list" where
  "splitlines_acc w [] = (if w = [] then [] else [w])"
| "splitlines_acc w (c # cs) =
     (if is_linebreak c then
        (case cs of
           d # ds \<Rightarrow> if cp c = 13 \<and> cp d = 10 then w # splitlines_acc [] ds
                     else w # splitlines_acc [] cs
         | [] \<Rightarrow> w # splitlines_acc [] cs)
      else splitlines_acc (w @ [c]) cs)"

definition splitlines :: "string \<Rightarrow> string list" where
  "splitlines s = splitlines_acc [] s"

text \<open>\<^verbatim>\<open>sep.join(xs)\<close>.\<close>

fun join :: "'a list \<Rightarrow> 'a list list \<Rightarrow> 'a list" where
  "join sep [] = []"
| "join sep [x] = x"
| "join sep (x # y # ys) = x @ sep @ join sep (y # ys)"

section \<open>Regular expressions: the fragment of \<^verbatim>\<open>re\<close> the patterns use\<close>

text \<open>
  A pattern is a term of \<open>re\<close>.  Matching is backtracking search as in \<^verbatim>\<open>re\<close>:
  \<open>ends\<close> lists, in the order the engine would try them, every position at which a
  match of the pattern starting at the given position can end; the engine's match is
  the head of that list.  A position is a pair of the text before it (reversed) and
  the text after it, so that \<^verbatim>\<open>^\<close>, \<^verbatim>\<open>\b\<close> and the look-behind see what precedes.
\<close>

datatype item = Ch char | Rng char char | CatDigit | CatSpace

datatype re =
    Lit char                      \<comment> \<open>a literal character\<close>
  | OneOf "item list"               \<comment> \<open>\<^verbatim>\<open>[...]\<close>, \<^verbatim>\<open>\d\<close>, \<^verbatim>\<open>\s\<close>\<close>
  | NoneOf "item list"              \<comment> \<open>\<^verbatim>\<open>[^...]\<close>, \<^verbatim>\<open>\S\<close>\<close>
  | Seq re re
  | Alt re re
  | Rep nat "nat option" re       \<comment> \<open>greedy \<^verbatim>\<open>{m,n}\<close>; no upper bound is \<open>None\<close>\<close>
  | Eps
  | Bol                           \<comment> \<open>\<^verbatim>\<open>^\<close>\<close>
  | Eol                           \<comment> \<open>\<^verbatim>\<open>$\<close>\<close>
  | WordB                         \<comment> \<open>\<^verbatim>\<open>\b\<close>\<close>
  | NotBehind "item list"         \<comment> \<open>\<^verbatim>\<open>(?<![...])\<close> for one character\<close>
  | NotAhead re                   \<comment> \<open>\<^verbatim>\<open>(?!...)\<close>\<close>

type_synonym pos = "string \<times> string"

fun item_ok :: "item \<Rightarrow> char \<Rightarrow> bool" where
  "item_ok (Ch c) x = (x = c)"
| "item_ok (Rng a b) x = (cp a \<le> cp x \<and> cp x \<le> cp b)"
| "item_ok CatDigit x = is_decimal x"
| "item_ok CatSpace x = is_space x"

text \<open>
  The flag \<open>ic\<close> is \<^verbatim>\<open>re.IGNORECASE\<close>.  It acts on literals.  The sets of the
  program's case-insensitive patterns are \<^verbatim>\<open>[^>]\<close> and \<^verbatim>\<open>\S\<close>, a caseless character
  and a category, on which the flag changes nothing.
\<close>

definition lit_ok :: "bool \<Rightarrow> char \<Rightarrow> char \<Rightarrow> bool" where
  "lit_ok ic c x = (if ic then lower_char x = lower_char c else x = c)"

definition set_ok :: "item list \<Rightarrow> char \<Rightarrow> bool" where
  "set_ok items x = list_ex (\<lambda>i. item_ok i x) items"

definition one_char :: "(char \<Rightarrow> bool) \<Rightarrow> pos \<Rightarrow> pos list" where
  "one_char P st = (case snd st of [] \<Rightarrow> [] | x # xs \<Rightarrow> if P x then [(x # fst st, xs)] else [])"

definition at_word_boundary :: "pos \<Rightarrow> bool" where
  "at_word_boundary st =
     ((case fst st of [] \<Rightarrow> False | x # _ \<Rightarrow> is_word x) \<noteq>
      (case snd st of [] \<Rightarrow> False | x # _ \<Rightarrow> is_word x))"

text \<open>
  Greedy repetition: one more round of the body first, stopping second.  A round that
  consumes nothing ends the repetition, as in \<^verbatim>\<open>re\<close>.  The third argument bounds the
  number of rounds.
\<close>

primrec rep_iter :: "(pos \<Rightarrow> pos list) \<Rightarrow> nat \<Rightarrow> nat \<Rightarrow> pos \<Rightarrow> pos list" where
  "rep_iter f lo 0 st = (if lo = 0 then [st] else [])"
| "rep_iter f lo (Suc h) st =
     concat (map (rep_iter f (lo - 1) h)
                 (filter (\<lambda>st'. length (snd st') < length (snd st)) (f st)))
     @ (if lo = 0 then [st] else [])"

primrec ends :: "bool \<Rightarrow> re \<Rightarrow> pos \<Rightarrow> pos list" where
  "ends ic (Lit c) st = one_char (lit_ok ic c) st"
| "ends ic (OneOf items) st = one_char (set_ok items) st"
| "ends ic (NoneOf items) st = one_char (\<lambda>x. \<not> set_ok items x) st"
| "ends ic (Seq p q) st = concat (map (ends ic q) (ends ic p st))"
| "ends ic (Alt p q) st = ends ic p st @ ends ic q st"
| "ends ic (Rep lo hi p) st =
     rep_iter (ends ic p) lo (case hi of None \<Rightarrow> length (snd st) | Some h \<Rightarrow> h) st"
| "ends ic Eps st = [st]"
| "ends ic Bol st = (if fst st = [] then [st] else [])"
| "ends ic Eol st = (if snd st = [] \<or> snd st = [CHR 0x0A] then [st] else [])"
| "ends ic WordB st = (if at_word_boundary st then [st] else [])"
| "ends ic (NotBehind items) st =
     (case fst st of [] \<Rightarrow> [st] | x # _ \<Rightarrow> if set_ok items x then [] else [st])"
| "ends ic (NotAhead p) st = (if ends ic p st = [] then [st] else [])"

text \<open>A compiled pattern: the flag and the expression.\<close>

type_synonym pattern = "bool \<times> re"

text \<open>\<^verbatim>\<open>pattern.match(s)\<close>, used as a truth value: is there a match at the start of s?\<close>

definition re_match :: "pattern \<Rightarrow> string \<Rightarrow> bool" where
  "re_match p s = (ends (fst p) (snd p) ([], s) \<noteq> [])"

text \<open>
  \<^verbatim>\<open>pattern.sub(repl, s)\<close> from a position on: the leftmost match is replaced and the
  scan goes on behind it; where nothing matches the character is copied.  An empty
  match is replaced and the scan moves one character on (no pattern of the program
  matches the empty string).
\<close>

function sub_from :: "pattern \<Rightarrow> string \<Rightarrow> string \<Rightarrow> string \<Rightarrow> string" where
  "sub_from p repl b s =
     (case ends (fst p) (snd p) (b, s) of
        [] \<Rightarrow> (case s of [] \<Rightarrow> [] | c # cs \<Rightarrow> c # sub_from p repl (c # b) cs)
      | e # _ \<Rightarrow>
          if length (snd e) < length s then repl @ sub_from p repl (fst e) (snd e)
          else repl @ (case s of [] \<Rightarrow> [] | c # cs \<Rightarrow> c # sub_from p repl (c # b) cs))"
  by pat_completeness auto
termination
  by (relation "measure (\<lambda>(p, repl, b, s). length s)") auto

definition re_sub :: "pattern \<Rightarrow> string \<Rightarrow> string \<Rightarrow> string" where
  "re_sub p repl s = sub_from p repl [] s"

section \<open>The patterns of the program\<close>

fun seqs :: "re list \<Rightarrow> re" where
  "seqs [] = Eps"
| "seqs [r] = r"
| "seqs (r # rs) = Seq r (seqs rs)"

definition digits :: "nat \<Rightarrow> nat \<Rightarrow> re" where
  "digits m n = Rep m (Some n) (OneOf [CatDigit])"

definition spaces0 :: re where
  "spaces0 = Rep 0 None (OneOf [CatSpace])"

definition spaces1 :: re where
  "spaces1 = Rep 1 None (OneOf [CatSpace])"

definition opt :: "re \<Rightarrow> re" where
  "opt r = Rep 0 (Some 1) r"

definition hms :: "re list" where
  "hms = [digits 2 2, Lit CHR '':'', digits 2 2, Lit CHR '':'', digits 2 2]"

definition hms_ms :: "re list" where
  "hms_ms = hms @ [OneOf [Ch CHR ''.'', Ch CHR '',''], digits 3 3]"

text \<open>\<^verbatim>\<open>\b\d{2}:\d{2}:\d{2}[.,]\d{3}\s*-->\s*\d{2}:\d{2}:\d{2}[.,]\d{3}\b\<close>\<close>

definition RANGE_VTT :: pattern where
  "RANGE_VTT = (False, seqs ([WordB] @ hms_ms @
     [spaces0, Lit CHR ''-'', Lit CHR ''-'', Lit CHR ''>'', spaces0] @ hms_ms @ [WordB]))"

text \<open>\<^verbatim>\<open>\b\d{2}:\d{2}:\d{2}[.,]\d{3}\b\<close>\<close>

definition STAMP_HMS_MS :: pattern where
  "STAMP_HMS_MS = (False, seqs ([WordB] @ hms_ms @ [WordB]))"

text \<open>\<^verbatim>\<open>\b\d{2}:\d{2}:\d{2}\b\<close>\<close>

definition STAMP_HMS :: pattern where
  "STAMP_HMS = (False, seqs ([WordB] @ hms @ [WordB]))"

text \<open>\<^verbatim>\<open>(?<!\d)\b\d{1,2}:\d{2}\b(?!:\d)\<close>\<close>

definition STAMP_MS :: pattern where
  "STAMP_MS = (False, seqs [NotBehind [CatDigit], WordB, digits 1 2, Lit CHR '':'', digits 2 2,
     WordB, NotAhead (Seq (Lit CHR '':'') (OneOf [CatDigit]))])"

text \<open>\<^verbatim>\<open>\[\s*\d{1,2}:\d{2}(?::\d{2})?\s*\]\<close>\<close>

definition STAMP_BRACKETED :: pattern where
  "STAMP_BRACKETED = (False, seqs [Lit CHR ''['', spaces0, digits 1 2, Lit CHR '':'', digits 2 2,
     opt (Seq (Lit CHR '':'') (digits 2 2)), spaces0, Lit CHR '']''])"

text \<open>\<^verbatim>\<open>^\s*\d+\s*$\<close>\<close>

definition LINE_NUMBER_SRT :: pattern where
  "LINE_NUMBER_SRT = (False, seqs [Bol, spaces0, Rep 1 None (OneOf [CatDigit]), spaces0, Eol])"

text \<open>\<^verbatim>\<open>^\s*WEBVTT\b\<close> with \<^verbatim>\<open>re.IGNORECASE\<close>\<close>

definition WEBVTT_HEADER :: pattern where
  "WEBVTT_HEADER = (True, seqs ([Bol, spaces0] @ map Lit ''WEBVTT'' @ [WordB]))"

text \<open>\<^verbatim>\<open></?c(?:\.[^>]+)?>\<close> with \<^verbatim>\<open>re.IGNORECASE\<close>\<close>

definition VTT_CUE_TAG :: pattern where
  "VTT_CUE_TAG = (True, seqs [Lit CHR ''<'', opt (Lit CHR ''/''), Lit CHR ''c'',
     opt (Seq (Lit CHR ''.'') (Rep 1 None (NoneOf [Ch CHR ''>'']))), Lit CHR ''>''])"

text \<open>\<^verbatim>\<open>^\s*[^:]{1,80}:\s+\<close>\<close>

definition SPEAKER_PREFIX :: pattern where
  "SPEAKER_PREFIX = (False, seqs [Bol, spaces0, Rep 1 (Some 80) (NoneOf [Ch CHR '':'']),
     Lit CHR '':'', spaces1])"

text \<open>\<^verbatim>\<open><[^>]+>\<close>\<close>

definition HTML_TAG :: pattern where
  "HTML_TAG = (False, seqs [Lit CHR ''<'', Rep 1 None (NoneOf [Ch CHR ''>'']), Lit CHR ''>''])"

text \<open>\<^verbatim>\<open>https?://\S+|www\.\S+\<close> with \<^verbatim>\<open>re.IGNORECASE\<close>\<close>

definition URL :: pattern where
  "URL = (True, Alt
     (seqs (map Lit ''http'' @ [opt (Lit CHR ''s'')] @ map Lit ''://'' @ [Rep 1 None (NoneOf [CatSpace])]))
     (seqs (map Lit ''www.'' @ [Rep 1 None (NoneOf [CatSpace])])))"

text \<open>\<^verbatim>\<open>[^a-zA-Z0-9'\-]+\<close>\<close>

definition NON_ALNUM_APOST :: pattern where
  "NON_ALNUM_APOST = (False, Rep 1 None (NoneOf [Rng CHR ''a'' CHR ''z'', Rng CHR ''A'' CHR ''Z'',
     Rng CHR ''0'' CHR ''9'', Ch CHR 0x27, Ch CHR ''-'']))"

text \<open>\<^verbatim>\<open>(^'+|'+$)\<close>\<close>

definition APOST_EDGES :: pattern where
  "APOST_EDGES = (False, Alt (Seq Bol (Rep 1 None (Lit CHR 0x27))) (Seq (Rep 1 None (Lit CHR 0x27)) Eol))"

definition DEFAULT_STOPWORDS :: "string list" where
  "DEFAULT_STOPWORDS = [
    ''a'',''an'',''and'',''the'',''or'',''but'',''if'',''then'',''than'',''that'',''this'',''those'',''these'',''there'',''here'',''when'',''where'',
    ''why'',''how'',''what'',''which'',''who'',''whom'',''whose'',''with'',''without'',''for'',''from'',''to'',''in'',''into'',''on'',''onto'',
    ''of'',''at'',''by'',''be'',''is'',''am'',''are'',''was'',''were'',''been'',''being'',''as'',''do'',''does'',''did'',''done'',''doing'',''have'',
    ''has'',''had'',''having'',''i'',''me'',''my'',''myself'',''we'',''our'',''ours'',''ourselves'',''you'',''your'',''yours'',''yourself'',
    ''yourselves'',''he'',''him'',''his'',''himself'',''she'',''her'',''hers'',''herself'',''it'',''its'',''itself'',''they'',''them'',''their'',
    ''theirs'',''themselves'',''all'',''any'',''both'',''each'',''few'',''more'',''most'',''other'',''some'',''such'',''no'',''nor'',''not'',
    ''only'',''own'',''same'',''so'',''too'',''very'',''can'',''could'',''should'',''would'',''may'',''might'',''will'',''just'',''also'',
    ''um'',''uh'',''erm'',''hmm'',''like'',''kinda'',''sorta'',''yeah'',''right'',''okay'',''ok'',''alright'']"

section \<open>Cleaning a line\<close>

text \<open>
  The format is the string \<^verbatim>\<open>guess_fmt\<close> returns, one of \<^verbatim>\<open>"vtt"\<close>, \<^verbatim>\<open>"srt"\<close> and
  \<^verbatim>\<open>"txt"\<close>.
\<close>

datatype fmt = Vtt | Srt | Txt

definition guess_fmt :: "string \<Rightarrow> fmt" where
  "guess_fmt suffix = (let ext = str_lower suffix in
     if ext = ''.vtt'' then Vtt else if ext = ''.srt'' then Srt else Txt)"

definition strip_timestamps_everywhere :: "string \<Rightarrow> string" where
  "strip_timestamps_everywhere s0 =
    (let s = re_sub RANGE_VTT '' '' s0;
         s = re_sub STAMP_BRACKETED '' '' s;
         s = re_sub STAMP_HMS_MS '' '' s;
         s = re_sub STAMP_HMS '' '' s;
         s = re_sub STAMP_MS '' '' s
     in s)"

definition clean_line :: "string \<Rightarrow> fmt \<Rightarrow> string" where
  "clean_line line fmt =
    (let s = rstrip_chars [CHR 0x0D, CHR 0x0A] line in
     if s = [] then []
     else if fmt = Vtt \<and> re_match WEBVTT_HEADER s then []
     else
       let s = (if fmt = Vtt then re_sub VTT_CUE_TAG '' '' s else s) in
       if fmt = Srt \<and> re_match LINE_NUMBER_SRT s then []
       else
         let s = re_sub URL '' '' s;
             s = re_sub HTML_TAG '' '' s;
             s = strip_timestamps_everywhere s;
             s = re_sub SPEAKER_PREFIX [] s
         in if (startswith s CHR ''('' \<and> endswith s CHR '')'') \<or>
               (startswith s CHR ''['' \<and> endswith s CHR '']'')
            then []
            else strip s)"

section \<open>Tokenising\<close>

text \<open>
  The loop of \<^verbatim>\<open>tokenize\<close> over the raw tokens, with the list \<^verbatim>\<open>out\<close> it appends to.
  \<^verbatim>\<open>tok.replace("'", "")\<close> removes every apostrophe.  The replacement of U+2019
  before it changes nothing on the text of this model (and none on any text, since
  \<^verbatim>\<open>NON_ALNUM_APOST\<close> has replaced that character by a space already).
\<close>

definition remove_apostrophes :: "string \<Rightarrow> string" where
  "remove_apostrophes tok = filter (\<lambda>c. c \<noteq> CHR 0x27) tok"

fun tokenize_loop :: "bool \<Rightarrow> string list \<Rightarrow> string list \<Rightarrow> string list" where
  "tokenize_loop keep_numbers out [] = out"
| "tokenize_loop keep_numbers out (raw # raws) =
     (let tok = re_sub APOST_EDGES [] raw;
          tok = remove_apostrophes tok
      in if \<not> keep_numbers \<and> isdigit tok then tokenize_loop keep_numbers out raws
         else if tok \<noteq> [] then tokenize_loop keep_numbers (out @ [tok]) raws
         else tokenize_loop keep_numbers out raws)"

definition tokenize :: "string \<Rightarrow> bool \<Rightarrow> string list" where
  "tokenize text keep_numbers =
     (let text = re_sub NON_ALNUM_APOST '' '' text
      in tokenize_loop keep_numbers [] (split text))"

section \<open>N-grams\<close>

text \<open>
  \<^verbatim>\<open>xs[i:j]\<close> for integers i and j: a negative index counts from the end, and both
  are clamped to the list.
\<close>

definition clamp_index :: "nat \<Rightarrow> int \<Rightarrow> nat" where
  "clamp_index len k = (if k < 0 then nat (max 0 (k + int len)) else min (nat k) len)"

definition list_slice :: "'a list \<Rightarrow> int \<Rightarrow> int \<Rightarrow> 'a list" where
  "list_slice xs i j =
     (let a = clamp_index (length xs) i; b = clamp_index (length xs) j
      in take (b - a) (drop a xs))"

text \<open>\<^verbatim>\<open>range(m)\<close>, as the list of its values.\<close>

definition range_list :: "int \<Rightarrow> int list" where
  "range_list m = map int [0..<nat m]"

definition make_ngrams :: "string list \<Rightarrow> int \<Rightarrow> string list" where
  "make_ngrams tokens n =
     (if int (length tokens) < n then []
      else map (\<lambda>i. join '' '' (list_slice tokens i (i + n))) (range_list (int (length tokens) - n + 1)))"

section \<open>Counters\<close>

text \<open>
  A \<^verbatim>\<open>Counter\<close> is a dictionary from phrases to counts; it is modelled by the list of
  its items in insertion order.  Counting an element adds one to its count where the
  key is present and appends the key with count 1 where it is not.
\<close>

type_synonym counter = "(string \<times> nat) list"

fun incr :: "string \<Rightarrow> counter \<Rightarrow> counter" where
  "incr k [] = [(k, 1)]"
| "incr k ((k', v) # c) = (if k = k' then (k', v + 1) # c else (k', v) # incr k c)"

text \<open>\<^verbatim>\<open>counter.update(iterable)\<close>\<close>

definition update :: "counter \<Rightarrow> string list \<Rightarrow> counter" where
  "update c xs = fold incr xs c"

text \<open>\<^verbatim>\<open>counter[k]\<close>: zero for a key that is not there.\<close>

definition count_of :: "counter \<Rightarrow> string \<Rightarrow> nat" where
  "count_of c k = (case map_of c k of None \<Rightarrow> 0 | Some v \<Rightarrow> v)"

definition keys :: "counter \<Rightarrow> string set" where
  "keys c = fst ` set c"

text \<open>\<^verbatim>\<open>sum(counter.values())\<close>\<close>

definition total_count :: "counter \<Rightarrow> nat" where
  "total_count c = sum_list (map snd c)"

section \<open>Reading files\<close>

text \<open>
  The file system is the program's environment.  An entry is what \<^verbatim>\<open>rglob\<close> yields:
  its suffix, whether it is a regular file, and what opening and reading it gives,
  the bytes or an error of the operating system.  \<^verbatim>\<open>parse_dir\<close> reads a file a second
  time when the first \<^verbatim>\<open>read_text\<close> raises; \<open>raw_retry\<close> is what that second read
  gives.
\<close>

type_synonym byte = "8 word"

datatype oserror = PermissionError | FileNotFoundError | IsADirectoryError | OtherOSError

datatype exn = OSError oserror | UnicodeDecodeError | KeyError

record entry =
  suffix :: string
  is_file :: bool
  raw :: "oserror + byte list"
  raw_retry :: "oserror + byte list"

text \<open>
  \<^verbatim>\<open>bytes.decode\<close>, to a list of code points.  The handler is the \<^verbatim>\<open>errors\<close> argument:
  \<^verbatim>\<open>"strict"\<close> (the default) raises at malformed input, \<^verbatim>\<open>"ignore"\<close> leaves it out.

  \<open>utf8_step b bs\<close> decodes the sequence that starts with the byte b and goes on in
  bs: the code point, or \<open>None\<close> for a malformed sequence, and how many bytes of bs
  belong to it (for a malformed sequence: the bytes the decoder reports, which the
  handler \<^verbatim>\<open>"ignore"\<close> skips).
\<close>

datatype errors = Strict | Ignore

definition is_cont :: "byte \<Rightarrow> bool" where
  "is_cont b = (128 \<le> uint b \<and> uint b < 192)"

definition cont :: "byte \<Rightarrow> int" where
  "cont b = uint b - 128"

definition utf8_step :: "byte \<Rightarrow> byte list \<Rightarrow> int option \<times> nat" where
  "utf8_step b bs =
    (let c = uint b in
     if c < 128 then (Some c, 0)
     else if c < 194 then (None, 0)
     else if c < 224 then
       (case bs of
          [] \<Rightarrow> (None, 0)
        | b1 # _ \<Rightarrow> if is_cont b1 then (Some ((c - 192) * 64 + cont b1), 1) else (None, 0))
     else if c < 240 then
       (case bs of
          [] \<Rightarrow> (None, 0)
        | b1 # bs1 \<Rightarrow>
            if \<not> is_cont b1 \<or> (c = 224 \<and> uint b1 < 160) \<or> (c = 237 \<and> 160 \<le> uint b1)
            then (None, 0)
            else (case bs1 of
                    [] \<Rightarrow> (None, 1)
                  | b2 # _ \<Rightarrow>
                      if is_cont b2
                      then (Some (((c - 224) * 64 + cont b1) * 64 + cont b2), 2)
                      else (None, 1)))
     else if c < 245 then
       (case bs of
          [] \<Rightarrow> (None, 0)
        | b1 # bs1 \<Rightarrow>
            if \<not> is_cont b1 \<or> (c = 240 \<and> uint b1 < 144) \<or> (c = 244 \<and> 144 \<le> uint b1)
            then (None, 0)
            else (case bs1 of
                    [] \<Rightarrow> (None, 1)
                  | b2 # bs2 \<Rightarrow>
                      if \<not> is_cont b2 then (None, 1)
                      else (case bs2 of
                              [] \<Rightarrow> (None, 2)
                            | b3 # _ \<Rightarrow>
                                if is_cont b3
                                then (Some ((((c - 240) * 64 + cont b1) * 64 + cont b2) * 64 + cont b3), 3)
                                else (None, 2))))
     else (None, 0))"

fun utf8_decode :: "errors \<Rightarrow> byte list \<Rightarrow> exn + int list" where
  "utf8_decode h [] = Inr []"
| "utf8_decode h (b # bs) =
     (case utf8_step b bs of
        (Some c, k) \<Rightarrow>
          (case utf8_decode h (drop k bs) of Inl e \<Rightarrow> Inl e | Inr cs \<Rightarrow> Inr (c # cs))
      | (None, k) \<Rightarrow>
          (case h of Strict \<Rightarrow> Inl UnicodeDecodeError | Ignore \<Rightarrow> utf8_decode h (drop k bs)))"

datatype encoding = Utf8 | Latin1

definition decode :: "encoding \<Rightarrow> errors \<Rightarrow> byte list \<Rightarrow> exn + int list" where
  "decode enc h bs = (case enc of Utf8 \<Rightarrow> utf8_decode h bs | Latin1 \<Rightarrow> Inr (map uint bs))"

text \<open>
  A file opened for reading text has its line ends translated: CR LF and a lone CR
  become LF.
\<close>

fun universal_newlines :: "int list \<Rightarrow> int list" where
  "universal_newlines [] = []"
| "universal_newlines [c] = [if c = 13 then 10 else c]"
| "universal_newlines (c # d # cs) =
     (if c = 13 \<and> d = 10 then 10 # universal_newlines cs
      else if c = 13 then 10 # universal_newlines (d # cs)
      else c # universal_newlines (d # cs))"

text \<open>\<^verbatim>\<open>path.read_text(encoding=enc, errors=h)\<close>, given what reading the file gives.\<close>

definition read_text :: "encoding \<Rightarrow> errors \<Rightarrow> oserror + byte list \<Rightarrow> exn + int list" where
  "read_text enc h r =
     (case r of
        Inl e \<Rightarrow> Inl (OSError e)
      | Inr bs \<Rightarrow> (case decode enc h bs of Inl e \<Rightarrow> Inl e | Inr cs \<Rightarrow> Inr (universal_newlines cs)))"

section \<open>Text with any code point\<close>

text \<open>
  The text of a file is a list of code points.  \<open>widen\<close> reads a \<^typ>\<open>string\<close> as
  such a list, and \<open>narrow\<close> gives the \<^typ>\<open>string\<close> of a list that has no code point
  above 255.
\<close>

definition widen :: "string \<Rightarrow> int list" where
  "widen s = map cp s"

definition narrow :: "int list \<Rightarrow> string option" where
  "narrow cs = (if list_all (\<lambda>c. 0 \<le> c \<and> c < 256) cs then Some (map char_of cs) else None)"

text \<open>
  \<^verbatim>\<open>str.isspace\<close>, \<^verbatim>\<open>s.strip()\<close> and \<^verbatim>\<open>s.splitlines()\<close> on code points: the
  whitespace characters and the line boundaries of all of Unicode.
\<close>

definition is_space_u :: "int \<Rightarrow> bool" where
  "is_space_u c = (c \<in> {9, 10, 11, 12, 13, 28, 29, 30, 31, 32, 133, 160, 5760,
                         8232, 8233, 8239, 8287, 12288} \<or> (8192 \<le> c \<and> c \<le> 8202))"

definition strip_u :: "int list \<Rightarrow> int list" where
  "strip_u s = dropWhile is_space_u (rev (dropWhile is_space_u (rev s)))"

definition is_linebreak_u :: "int \<Rightarrow> bool" where
  "is_linebreak_u c = (c \<in> {10, 11, 12, 13, 28, 29, 30, 133, 8232, 8233})"

fun splitlines_u_acc :: "int list \<Rightarrow> int list \<Rightarrow> int list list" where
  "splitlines_u_acc w [] = (if w = [] then [] else [w])"
| "splitlines_u_acc w (c # cs) =
     (if is_linebreak_u c then
        (case cs of
           d # ds \<Rightarrow> if c = 13 \<and> d = 10 then w # splitlines_u_acc [] ds
                     else w # splitlines_u_acc [] cs
         | [] \<Rightarrow> w # splitlines_u_acc [] cs)
      else splitlines_u_acc (w @ [c]) cs)"

definition splitlines_u :: "int list \<Rightarrow> int list list" where
  "splitlines_u s = splitlines_u_acc [] s"

text \<open>
  Modelled as a parameter: the Unicode character database of Python, which is no part
  of the repository.  What \<^verbatim>\<open>clean_line\<close> returns on a line that has a code point
  above 255 depends on it (which characters are digits, word characters, whitespace):
  there the function is the field \<open>clean_line_wide\<close> of the parameter, and on every
  other line it is \<open>clean_line\<close>.  \<^verbatim>\<open>str.lower\<close> maps a character up to 255 to one
  character, whatever stands around it, as \<open>lower_char\<close> says; what it gives for a
  character above 255 depends on the database and, for the capital sigma, on the
  characters around it: \<open>lower_wide U s i\<close> is what the character at index i of s
  becomes.
\<close>

record unicode =
  clean_line_wide :: "int list \<Rightarrow> fmt \<Rightarrow> int list"
  lower_wide :: "int list \<Rightarrow> nat \<Rightarrow> int list"

definition clean_line_u :: "'u unicode_scheme \<Rightarrow> int list \<Rightarrow> fmt \<Rightarrow> int list" where
  "clean_line_u U line fmt =
     (case narrow line of
        Some l \<Rightarrow> widen (clean_line l fmt)
      | None \<Rightarrow> clean_line_wide U line fmt)"

definition lower_u :: "'u unicode_scheme \<Rightarrow> int list \<Rightarrow> int list" where
  "lower_u U s =
     concat (map (\<lambda>i. let c = s ! i in
                        if 0 \<le> c \<and> c < 256 then [cp (lower_char (char_of c))] else lower_wide U s i)
                 [0..<length s])"

text \<open>
  \<^verbatim>\<open>tokenize\<close> on code points needs no database.  Its first step replaces every run
  of characters other than the ASCII letters and digits, the apostrophe and the
  hyphen by one space, and no later step sees such a character.  A code point above
  255 is one of them, as the space is: the text is tokenised as the text that has a
  space in place of each.
\<close>

definition squash :: "int \<Rightarrow> char" where
  "squash c = (if 0 \<le> c \<and> c < 256 then char_of c else CHR '' '')"

definition tokenize_u :: "int list \<Rightarrow> bool \<Rightarrow> string list" where
  "tokenize_u text keep_numbers = tokenize (map squash text) keep_numbers"

section \<open>The corpus driver\<close>

text \<open>
  The fields of \<^verbatim>\<open>args\<close> that \<^verbatim>\<open>parse_dir\<close> reads.  \<^verbatim>\<open>--ngrams\<close> takes any integers.
  Printing to \<^verbatim>\<open>stderr\<close> under \<^verbatim>\<open>--verbose\<close> has no effect on the result and is left out.
\<close>

record args =
  minlen :: int
  stopwords :: "string option"
  lower :: bool
  keep_numbers :: bool
  verbose :: bool
  ngrams :: "int list"

text \<open>
  \<^verbatim>\<open>load_stopwords\<close>; \<open>fs\<close> is the file system, from a path to what is there.
  The stopwords are texts of any code points.
\<close>

definition load_stopwords ::
  "'u unicode_scheme \<Rightarrow> (string \<Rightarrow> entry) \<Rightarrow> string option \<Rightarrow> exn + int list set" where
  "load_stopwords U fs path =
    (let sw = set (map widen DEFAULT_STOPWORDS) in
     case path of
       None \<Rightarrow> Inr sw
     | Some p \<Rightarrow>
         if p = [] then Inr sw
         else if is_file (fs p) then
           (case read_text Utf8 Strict (raw (fs p)) of
              Inl e \<Rightarrow> Inl e
            | Inr text \<Rightarrow>
                Inr (sw \<union> set (map (\<lambda>ln. lower_u U (strip_u ln))
                                  (filter (\<lambda>ln. strip_u ln \<noteq> []) (splitlines_u text)))))
         else Inr sw)"

definition iter_files :: "entry list \<Rightarrow> entry list" where
  "iter_files root = filter (\<lambda>p. is_file p \<and> str_lower (suffix p) \<in> {''.vtt'', ''.srt'', ''.txt''}) root"

text \<open>Lines 127 to 130: the read and, where it raises, the second read.\<close>

definition read_file :: "entry \<Rightarrow> exn + int list" where
  "read_file fp =
     (case read_text Utf8 Ignore (raw fp) of
        Inr text \<Rightarrow> Inr text
      | Inl e \<Rightarrow> read_text Latin1 Ignore (raw_retry fp))"

text \<open>
  Lines 132 to 139, from the text of a file to its filtered tokens, on a text and on
  stopwords with code points 0..255.
\<close>

definition file_tokens :: "'a args_scheme \<Rightarrow> string set \<Rightarrow> fmt \<Rightarrow> string \<Rightarrow> string list" where
  "file_tokens a stop fmt text =
    (let lines = map (\<lambda>ln. clean_line ln fmt) (splitlines text);
         cleaned = join '' '' (filter (\<lambda>l. l \<noteq> []) lines);
         cleaned = (if lower a then str_lower cleaned else cleaned);
         tokens = tokenize cleaned (keep_numbers a)
     in filter (\<lambda>t. minlen a \<le> int (length t) \<and> t \<notin> stop) tokens)"

text \<open>
  The same lines on the text of a file as the driver reads it, with any code points:
  lines 132 to 138 give the tokens, and line 139 keeps those that are long enough and
  are no stopwords.
\<close>

definition all_tokens :: "'u unicode_scheme \<Rightarrow> 'a args_scheme \<Rightarrow> fmt \<Rightarrow> int list \<Rightarrow> string list" where
  "all_tokens U a fmt text =
    (let lines = map (\<lambda>ln. clean_line_u U ln fmt) (splitlines_u text);
         cleaned = join [32] (filter (\<lambda>l. l \<noteq> []) lines);
         cleaned = (if lower a then lower_u U cleaned else cleaned)
     in tokenize_u cleaned (keep_numbers a))"

definition kept_tokens ::
  "'u unicode_scheme \<Rightarrow> 'a args_scheme \<Rightarrow> int list set \<Rightarrow> fmt \<Rightarrow> int list \<Rightarrow> string list" where
  "kept_tokens U a stop fmt text =
     filter (\<lambda>t. minlen a \<le> int (length t) \<and> widen t \<notin> stop) (all_tokens U a fmt text)"

text \<open>
  Lines 144 to 146: the loop over the requested orders.  \<^verbatim>\<open>ngram_counts\<close> is a
  dictionary from an order to its counter.
\<close>

fun count_ngrams :: "string list \<Rightarrow> int list \<Rightarrow> (int \<rightharpoonup> counter) \<Rightarrow> exn + (int \<rightharpoonup> counter)" where
  "count_ngrams tokens [] nc = Inr nc"
| "count_ngrams tokens (n # ns) nc =
     (case nc n of
        None \<Rightarrow> Inl KeyError
      | Some c \<Rightarrow> count_ngrams tokens ns (nc(n \<mapsto> update c (make_ngrams tokens n))))"

text \<open>The loop over the files, with the two tables it updates.\<close>

fun parse_loop ::
  "'u unicode_scheme \<Rightarrow> 'a args_scheme \<Rightarrow> int list set \<Rightarrow> entry list \<Rightarrow>
   counter \<times> (int \<rightharpoonup> counter) \<Rightarrow> exn + counter \<times> (int \<rightharpoonup> counter)" where
  "parse_loop U a stop [] st = Inr st"
| "parse_loop U a stop (fp # fps) st =
     (let fmt = guess_fmt (suffix fp) in
      case read_file fp of
        Inl e \<Rightarrow> Inl e
      | Inr text \<Rightarrow>
          (let tokens = kept_tokens U a stop fmt text;
               word_counts = update (fst st) tokens
           in case count_ngrams tokens (ngrams a) (snd st) of
                Inl e \<Rightarrow> Inl e
              | Inr ngram_counts \<Rightarrow> parse_loop U a stop fps (word_counts, ngram_counts)))"

definition parse_dir ::
  "'u unicode_scheme \<Rightarrow> (string \<Rightarrow> entry) \<Rightarrow> entry list \<Rightarrow> 'a args_scheme \<Rightarrow>
   exn + counter \<times> (int \<rightharpoonup> counter)" where
  "parse_dir U fs root a =
    (let word_counts = [];
         ngram_counts = map_of (map (\<lambda>n. (n, [])) (ngrams a))
     in case load_stopwords U fs (stopwords a) of
          Inl e \<Rightarrow> Inl e
        | Inr stop \<Rightarrow> parse_loop U a stop (iter_files root) (word_counts, ngram_counts))"

section \<open>Notions the properties are stated with\<close>

text \<open>
  \<^verbatim>\<open>pattern.search(s)\<close> as a truth value: does the pattern match at some position
  of s?  The program does not call it; it says of a text that a rule of the cleaner
  has nothing to replace in it.
\<close>

fun search_from :: "pattern \<Rightarrow> string \<Rightarrow> string \<Rightarrow> bool" where
  "search_from p b [] = (ends (fst p) (snd p) (b, []) \<noteq> [])"
| "search_from p b (c # cs) = (ends (fst p) (snd p) (b, c # cs) \<noteq> [] \<or> search_from p (c # b) cs)"

definition re_search :: "pattern \<Rightarrow> string \<Rightarrow> bool" where
  "re_search p s = search_from p [] s"

text \<open>The test of line 80 of \<^verbatim>\<open>clean_line\<close>: a line wrapped in parentheses or brackets.\<close>

definition bracketed_cue :: "string \<Rightarrow> bool" where
  "bracketed_cue s = ((startswith s CHR ''('' \<and> endswith s CHR '')'') \<or>
                      (startswith s CHR ''['' \<and> endswith s CHR '']''))"

text \<open>
  A text is already clean for a format when no rule of \<^verbatim>\<open>clean_line\<close> applies to it:
  it is no header and holds no cue tag (vtt), it is no index line (srt), it holds no
  URL, no tag, no timestamp of the five shapes and no speaker prefix, and it is not
  wrapped in parentheses or brackets.
\<close>

definition nothing_to_strip :: "fmt \<Rightarrow> string \<Rightarrow> bool" where
  "nothing_to_strip fmt t =
     (\<not> (fmt = Vtt \<and> (re_match WEBVTT_HEADER t \<or> re_search VTT_CUE_TAG t)) \<and>
      \<not> (fmt = Srt \<and> re_match LINE_NUMBER_SRT t) \<and>
      \<not> re_search URL t \<and> \<not> re_search HTML_TAG t \<and>
      \<not> re_search RANGE_VTT t \<and> \<not> re_search STAMP_BRACKETED t \<and>
      \<not> re_search STAMP_HMS_MS t \<and> \<not> re_search STAMP_HMS t \<and> \<not> re_search STAMP_MS t \<and>
      \<not> re_search SPEAKER_PREFIX t \<and> \<not> bracketed_cue t)"

text \<open>A text with no whitespace at either end.\<close>

definition clean_ends :: "string \<Rightarrow> bool" where
  "clean_ends u = (u = [] \<or> (\<not> is_space (hd u) \<and> \<not> is_space (last u)))"

text \<open>
  The timestamp rules as the specification words them: an ordered list of patterns,
  each applied once over the whole string, in sequence, every match replaced by one
  space.
\<close>

definition timestamp_rules :: "pattern list" where
  "timestamp_rules = [RANGE_VTT, STAMP_BRACKETED, STAMP_HMS_MS, STAMP_HMS, STAMP_MS]"

definition apply_once_each :: "pattern list \<Rightarrow> string \<Rightarrow> string" where
  "apply_once_each rules s = fold (\<lambda>p t. re_sub p '' '' t) rules s"

text \<open>
  The tokens of a file before the filter of line 139, and the filter itself: a token
  passes when it is long enough and is no stopword.  The tokens a file contributes
  are those that pass; its own table counts them; its phrases of order n are counted
  once for every time the order is requested.
\<close>

definition entry_all_tokens :: "'u unicode_scheme \<Rightarrow> 'a args_scheme \<Rightarrow> entry \<Rightarrow> string list" where
  "entry_all_tokens U a fp =
     (case read_file fp of
        Inl e \<Rightarrow> []
      | Inr tx \<Rightarrow> all_tokens U a (guess_fmt (suffix fp)) tx)"

definition passes :: "'a args_scheme \<Rightarrow> int list set \<Rightarrow> string \<Rightarrow> bool" where
  "passes a stop t = (minlen a \<le> int (length t) \<and> widen t \<notin> stop)"

definition entry_tokens ::
  "'u unicode_scheme \<Rightarrow> 'a args_scheme \<Rightarrow> int list set \<Rightarrow> entry \<Rightarrow> string list" where
  "entry_tokens U a stop fp = filter (passes a stop) (entry_all_tokens U a fp)"

definition file_table ::
  "'u unicode_scheme \<Rightarrow> 'a args_scheme \<Rightarrow> int list set \<Rightarrow> entry \<Rightarrow> counter" where
  "file_table U a stop fp = update [] (filter (passes a stop) (entry_all_tokens U a fp))"

definition entry_ngrams ::
  "'u unicode_scheme \<Rightarrow> 'a args_scheme \<Rightarrow> int list set \<Rightarrow> int \<Rightarrow> entry \<Rightarrow> string list" where
  "entry_ngrams U a stop n fp =
     concat (replicate (count_list (ngrams a) n) (make_ngrams (entry_tokens U a stop fp) n))"

text \<open>The stopword set of a run.\<close>

definition stop_of :: "'u unicode_scheme \<Rightarrow> (string \<Rightarrow> entry) \<Rightarrow> 'a args_scheme \<Rightarrow> int list set" where
  "stop_of U fs a = (case load_stopwords U fs (stopwords a) of Inl e \<Rightarrow> {} | Inr stop \<Rightarrow> stop)"

text \<open>The results of a run: the unigram table, the table of an order, the exception.\<close>

definition word_table :: "exn + counter \<times> (int \<rightharpoonup> counter) \<Rightarrow> counter option" where
  "word_table r = (case r of Inl e \<Rightarrow> None | Inr st \<Rightarrow> Some (fst st))"

definition ngram_table :: "exn + counter \<times> (int \<rightharpoonup> counter) \<Rightarrow> int \<Rightarrow> counter option" where
  "ngram_table r n = (case r of Inl e \<Rightarrow> None | Inr st \<Rightarrow> snd st n)"

definition failure_of :: "exn + counter \<times> (int \<rightharpoonup> counter) \<Rightarrow> exn option" where
  "failure_of r = (case r of Inl e \<Rightarrow> Some e | Inr st \<Rightarrow> None)"

text \<open>
  Sample data: a readable file with a latin-1 text, a readable file with given
  bytes, a file that cannot be read, a file system with nothing at any path, a file
  system with one file of stopwords, the defaults of the command line, and a stand-in
  for the database that leaves a line with code points above 255 and every such
  character as they are.  The examples use it on lines that the program leaves as
  they are too: lines with nothing to clean, whose only characters above 255 are a
  quotation mark (U+2019) or a dash (U+2014), which have no lower case.
\<close>

definition latin1_bytes :: "string \<Rightarrow> byte list" where
  "latin1_bytes s = map of_char s"

definition text_file :: "string \<Rightarrow> string \<Rightarrow> entry" where
  "text_file sfx s =
     \<lparr>suffix = sfx, is_file = True, raw = Inr (latin1_bytes s), raw_retry = Inr (latin1_bytes s)\<rparr>"

definition bytes_file :: "string \<Rightarrow> byte list \<Rightarrow> entry" where
  "bytes_file sfx bs = \<lparr>suffix = sfx, is_file = True, raw = Inr bs, raw_retry = Inr bs\<rparr>"

definition unreadable_file :: "string \<Rightarrow> entry" where
  "unreadable_file sfx =
     \<lparr>suffix = sfx, is_file = True, raw = Inl PermissionError, raw_retry = Inl PermissionError\<rparr>"

definition no_files :: "string \<Rightarrow> entry" where
  "no_files p =
     \<lparr>suffix = [], is_file = False, raw = Inl FileNotFoundError, raw_retry = Inl FileNotFoundError\<rparr>"

definition stopword_file :: "string \<Rightarrow> string \<Rightarrow> string \<Rightarrow> entry" where
  "stopword_file path s p = (if p = path then text_file [] s else no_files p)"

definition default_args :: args where
  "default_args = \<lparr>minlen = 2, stopwords = None, lower = True, keep_numbers = False,
     verbose = False, ngrams = []\<rparr>"

definition plain_unicode :: unicode where
  "plain_unicode = \<lparr>clean_line_wide = (\<lambda>line fmt. line), lower_wide = (\<lambda>s i. [s ! i])\<rparr>"

section \<open>Counters: what counting does to the counts, the keys and the total\<close>

lemma count_of_incr: "count_of (incr k c) k' = count_of c k' + (if k' = k then 1 else 0)"
proof (induction k c rule: incr.induct)
  case (1 k)
  then show ?case by (simp add: count_of_def)
next
  case (2 k k'' v c)
  show ?case
  proof (cases "k = k''")
    case True
    then show ?thesis by (simp add: count_of_def)
  next
    case False
    with 2 show ?thesis by (cases "k' = k''") (simp_all add: count_of_def)
  qed
qed

lemma count_of_update: "count_of (update c xs) k = count_of c k + count_list xs k"
  unfolding update_def by (induction xs arbitrary: c) (simp_all add: count_of_incr)

lemma keys_incr: "keys (incr k c) = insert k (keys c)"
  by (induction k c rule: incr.induct) (simp_all add: keys_def insert_commute)

lemma keys_update: "keys (update c xs) = keys c \<union> set xs"
  unfolding update_def by (induction xs arbitrary: c) (simp_all add: keys_incr)

lemma total_incr: "total_count (incr k c) = Suc (total_count c)"
  by (induction k c rule: incr.induct) (simp_all add: total_count_def)

lemma total_update: "total_count (update c xs) = total_count c + length xs"
  unfolding update_def by (induction xs arbitrary: c) (simp_all add: total_incr)

section \<open>N-grams are the windows of the token list\<close>

lemma slice_window:
  assumes "i + m \<le> length xs"
  shows "list_slice xs (int i) (int i + int m) = take m (drop i xs)"
  using assms by (simp add: list_slice_def clamp_index_def Let_def min_def nat_add_distrib)

lemma make_ngrams_eq:
  assumes "0 \<le> n" "n \<le> int (length tokens)"
  shows "make_ngrams tokens n =
         map (\<lambda>i. join '' '' (take (nat n) (drop i tokens))) [0..<length tokens - nat n + 1]"
proof -
  have len: "nat (int (length tokens) - n + 1) = length tokens - nat n + 1"
    using assms by linarith
  have win: "list_slice tokens (int i) (int i + n) = take (nat n) (drop i tokens)"
    if "i \<in> set [0..<length tokens - nat n + 1]" for i
  proof -
    have "i < length tokens - nat n + 1" using that by (simp only: set_upt atLeastLessThan_iff)
    then have "i + nat n \<le> length tokens" using assms by linarith
    from slice_window [OF this] show ?thesis using assms by simp
  qed
  have "make_ngrams tokens n =
        map (\<lambda>i. join '' '' (list_slice tokens (int i) (int i + n))) [0..<length tokens - nat n + 1]"
    using assms by (simp only: make_ngrams_def range_list_def len map_map comp_def) simp
  also have "\<dots> = map (\<lambda>i. join '' '' (take (nat n) (drop i tokens))) [0..<length tokens - nat n + 1]"
    by (rule map_cong [OF refl]) (simp only: win)
  finally show ?thesis .
qed

lemma make_ngrams_zero: "make_ngrams tokens 0 = replicate (length tokens + 1) []"
proof -
  have "make_ngrams tokens 0 =
        map (\<lambda>i. join '' '' (take (nat 0) (drop i tokens))) [0..<length tokens - nat 0 + 1]"
    by (rule make_ngrams_eq) simp_all
  also have "(\<lambda>i. join '' '' (take (nat 0) (drop i tokens))) = (\<lambda>i. [])"
    by simp
  also have "map (\<lambda>i. []) [0..<length tokens - nat 0 + 1] =
             replicate (length [0..<length tokens - nat 0 + 1]) []"
    by (rule map_replicate_const)
  also have "length [0..<length tokens - nat 0 + 1] = length tokens + 1"
    by (simp only: length_upt)
  finally show ?thesis .
qed

text \<open>
  Claim C7.  For an order n of at least 2, \<^verbatim>\<open>make_ngrams\<close> returns nothing when there
  are fewer than n tokens; otherwise it returns one phrase for each of the
  \<open>length tokens - n + 1\<close> positions, the phrase at position i being the n tokens
  from i on, joined by single spaces.
\<close>

theorem make_ngrams_windows:
  assumes "2 \<le> n"
  shows "(int (length tokens) < n \<longrightarrow> make_ngrams tokens n = []) \<and>
         (n \<le> int (length tokens) \<longrightarrow>
            length (make_ngrams tokens n) = length tokens - nat n + 1 \<and>
            (\<forall>i < length tokens - nat n + 1.
               make_ngrams tokens n ! i = join '' '' (take (nat n) (drop i tokens)) \<and>
               length (take (nat n) (drop i tokens)) = nat n))"
proof (intro conjI impI allI)
  assume "int (length tokens) < n"
  then show "make_ngrams tokens n = []" by (simp add: make_ngrams_def)
next
  assume le: "n \<le> int (length tokens)"
  have eq: "make_ngrams tokens n =
         map (\<lambda>i. join '' '' (take (nat n) (drop i tokens))) [0..<length tokens - nat n + 1]"
    using make_ngrams_eq [of n tokens] assms le by simp
  show "length (make_ngrams tokens n) = length tokens - nat n + 1"
    by (simp add: eq)
  fix i assume i: "i < length tokens - nat n + 1"
  show "make_ngrams tokens n ! i = join '' '' (take (nat n) (drop i tokens))"
    unfolding eq using i by (simp del: upt_Suc)
  have "i + nat n \<le> length tokens" using i le assms by linarith
  then show "length (take (nat n) (drop i tokens)) = nat n" by simp
qed

theorem make_ngrams_windows_witness:
  "(2::int) \<le> 2 \<and>
   make_ngrams [''data'', ''science'', ''is'', ''great''] 2 ! 1 = ''science is'' \<and>
   length (make_ngrams [''data'', ''science'', ''is'', ''great''] 2) = 3 \<and>
   make_ngrams [''data''] 2 = []"
  using make_ngrams_windows [of 2 "[''data'', ''science'', ''is'', ''great'']"]
        make_ngrams_windows [of 2 "[''data'']"]
  by simp

section \<open>The loop over the files\<close>

lemma update_append: "update c (xs @ ys) = update (update c xs) ys"
  by (simp add: update_def)

lemma update_Nil: "update c [] = c"
  by (simp add: update_def)

lemma count_ngrams_Inr:
  assumes "set ns \<subseteq> dom nc"
  shows "\<exists>nc'. count_ngrams tokens ns nc = Inr nc' \<and> dom nc' = dom nc \<and>
           (\<forall>n c. nc n = Some c \<longrightarrow>
              nc' n = Some (update c (concat (replicate (count_list ns n) (make_ngrams tokens n)))))"
  using assms
proof (induction ns arbitrary: nc)
  case Nil
  then show ?case by (simp add: update_Nil)
next
  case (Cons m ns)
  from Cons.prems obtain c0 where c0: "nc m = Some c0" by auto
  let ?nc1 = "nc(m \<mapsto> update c0 (make_ngrams tokens m))"
  have sub: "set ns \<subseteq> dom ?nc1" using Cons.prems by auto
  from Cons.IH [OF sub] obtain nc' where
    r: "count_ngrams tokens ns ?nc1 = Inr nc'" and d: "dom nc' = dom ?nc1" and
    v: "\<And>n c. ?nc1 n = Some c \<Longrightarrow>
          nc' n = Some (update c (concat (replicate (count_list ns n) (make_ngrams tokens n))))"
    by blast
  have "count_ngrams tokens (m # ns) nc = Inr nc'" using c0 r by simp
  moreover have "dom nc' = dom nc" using d c0 by auto
  moreover have "nc' n = Some (update c (concat (replicate (count_list (m # ns) n) (make_ngrams tokens n))))"
    if h: "nc n = Some c" for n c
  proof (cases "n = m")
    case True
    then have "c = c0" using h c0 by simp
    moreover have "?nc1 m = Some (update c0 (make_ngrams tokens m))" by simp
    ultimately show ?thesis using v [of m "update c0 (make_ngrams tokens m)"] True
      by (simp add: update_append)
  next
    case False
    then have "?nc1 n = Some c" using h by simp
    from v [OF this] show ?thesis using False by simp
  qed
  ultimately show ?case by blast
qed

lemma count_ngrams_dom: "count_ngrams tokens ns nc = Inr nc' \<Longrightarrow> set ns \<subseteq> dom nc"
proof (induction ns arbitrary: nc)
  case Nil
  then show ?case by simp
next
  case (Cons m ns)
  then obtain c0 where c0: "nc m = Some c0" by (cases "nc m") simp_all
  with Cons.prems have "count_ngrams tokens ns (nc(m \<mapsto> update c0 (make_ngrams tokens m))) = Inr nc'"
    by simp
  from Cons.IH [OF this] have "set ns \<subseteq> dom (nc(m \<mapsto> update c0 (make_ngrams tokens m)))" .
  also have "\<dots> = insert m (dom nc)" by (simp only: dom_fun_upd option.simps if_False)
  finally show ?case using c0 by auto
qed

lemma passes_eq: "passes a stop = (\<lambda>t. minlen a \<le> int (length t) \<and> widen t \<notin> stop)"
  by (rule ext) (simp add: passes_def)

lemma entry_tokens_read:
  "read_file fp = Inr tx \<Longrightarrow> entry_tokens U a stop fp = kept_tokens U a stop (guess_fmt (suffix fp)) tx"
  by (simp add: entry_tokens_def entry_all_tokens_def kept_tokens_def passes_eq)

lemma parse_loop_step:
  "parse_loop U a stop (fp # fps) st =
     (case read_file fp of
        Inl e \<Rightarrow> Inl e
      | Inr text \<Rightarrow>
          (case count_ngrams (entry_tokens U a stop fp) (ngrams a) (snd st) of
             Inl e \<Rightarrow> Inl e
           | Inr nc1 \<Rightarrow> parse_loop U a stop fps (update (fst st) (entry_tokens U a stop fp), nc1)))"
  by (simp add: entry_tokens_read Let_def split: sum.splits)

declare parse_loop.simps(2) [simp del]

lemma parse_loop_Inr:
  assumes "parse_loop U a stop fps (wc, nc) = Inr (wc', nc')"
  shows "(\<forall>fp \<in> set fps. \<exists>t. read_file fp = Inr t) \<and>
         wc' = update wc (concat (map (entry_tokens U a stop) fps)) \<and>
         dom nc' = dom nc \<and>
         (fps \<noteq> [] \<longrightarrow> set (ngrams a) \<subseteq> dom nc) \<and>
         (\<forall>n c. nc n = Some c \<longrightarrow>
            nc' n = Some (update c (concat (map (entry_ngrams U a stop n) fps))))"
  using assms
proof (induction fps arbitrary: wc nc)
  case Nil
  then show ?case by (simp add: update_Nil)
next
  case (Cons fp fps)
  from Cons.prems obtain tx where t: "read_file fp = Inr tx"
    by (cases "read_file fp") (simp_all add: parse_loop_step)
  let ?toks = "entry_tokens U a stop fp"
  from Cons.prems t obtain nc1 where
    c: "count_ngrams ?toks (ngrams a) nc = Inr nc1" and
    r: "parse_loop U a stop fps (update wc ?toks, nc1) = Inr (wc', nc')"
    by (cases "count_ngrams ?toks (ngrams a) nc") (simp_all add: parse_loop_step)
  have sub: "set (ngrams a) \<subseteq> dom nc" using c by (rule count_ngrams_dom)
  from count_ngrams_Inr [OF sub, of ?toks] c have
    d1: "dom nc1 = dom nc" and
    v1: "\<And>n c. nc n = Some c \<Longrightarrow>
           nc1 n = Some (update c (concat (replicate (count_list (ngrams a) n) (make_ngrams ?toks n))))"
    by auto
  note ih = Cons.IH [OF r]
  have "\<forall>fp' \<in> set (fp # fps). \<exists>t. read_file fp' = Inr t" using ih t by simp
  moreover have "wc' = update wc (concat (map (entry_tokens U a stop) (fp # fps)))"
    using ih by (simp add: update_append)
  moreover have "dom nc' = dom nc" using ih d1 by simp
  moreover have "nc' n = Some (update c (concat (map (entry_ngrams U a stop n) (fp # fps))))"
    if h: "nc n = Some c" for n c
  proof -
    from v1 [OF h] have "nc1 n = Some (update c (entry_ngrams U a stop n fp))"
      by (simp add: entry_ngrams_def)
    with ih show ?thesis by (simp add: update_append)
  qed
  ultimately show ?case using sub by blast
qed

lemma parse_loop_total:
  assumes "set (ngrams a) \<subseteq> dom nc" "\<forall>fp \<in> set fps. \<exists>t. read_file fp = Inr t"
  shows "\<exists>r. parse_loop U a stop fps (wc, nc) = Inr r"
  using assms
proof (induction fps arbitrary: wc nc)
  case Nil
  then show ?case by simp
next
  case (Cons fp fps)
  from Cons.prems obtain t where t: "read_file fp = Inr t" by auto
  from count_ngrams_Inr [OF Cons.prems(1), of "entry_tokens U a stop fp"] obtain nc1 where
    c: "count_ngrams (entry_tokens U a stop fp) (ngrams a) nc = Inr nc1" and d: "dom nc1 = dom nc"
    by blast
  have "set (ngrams a) \<subseteq> dom nc1" using d Cons.prems(1) by simp
  from Cons.IH [OF this, of "update wc (entry_tokens U a stop fp)"] Cons.prems(2)
  show ?case using t c by (simp add: parse_loop_step)
qed

lemma parse_loop_fails:
  assumes "fp \<in> set fps" "read_file fp = Inl f"
  shows "\<exists>f'. parse_loop U a stop fps st = Inl f'"
  using assms
proof (induction fps arbitrary: st)
  case Nil
  then show ?case by simp
next
  case (Cons p fps)
  show ?case
  proof (cases "read_file p")
    case (Inl f0)
    then show ?thesis by (simp add: parse_loop_step)
  next
    case (Inr t)
    then have "p \<noteq> fp" using Cons.prems by auto
    then have mem: "fp \<in> set fps" using Cons.prems by simp
    show ?thesis
    proof (cases "count_ngrams (entry_tokens U a stop p) (ngrams a) (snd st)")
      case (Inl e)
      then show ?thesis using Inr by (simp add: parse_loop_step)
    next
      case (Inr nc1)
      from Cons.IH [OF mem Cons.prems(2)] show ?thesis
        using Inr \<open>read_file p = Inr t\<close> by (simp add: parse_loop_step)
    qed
  qed
qed

section \<open>The driver on text with code points up to 255\<close>

text \<open>
  On a text and on stopwords that have no code point above 255, the tokens the
  driver keeps are \<open>file_tokens\<close>, whatever the database is.
\<close>

lemma cp_range: "0 \<le> cp c \<and> cp c < 256"
proof -
  have "cp c = cp c mod 256" by (simp add: cp_def)
  moreover have "0 \<le> cp c mod 256" by (rule pos_mod_sign) simp
  moreover have "cp c mod 256 < 256" by (rule pos_mod_bound) simp
  ultimately show ?thesis by simp
qed

lemma char_of_cp: "char_of (cp c) = c"
  by (simp add: cp_def)

lemma narrow_widen: "narrow (widen s) = Some s"
  by (simp add: narrow_def widen_def list_all_iff cp_range char_of_cp comp_def)

lemma widen_Nil_iff: "widen l = [] \<longleftrightarrow> l = []"
  by (simp add: widen_def)

lemma inj_widen:
  assumes "widen s = widen t"
  shows "s = t"
proof -
  have "narrow (widen s) = narrow (widen t)" by (simp only: assms)
  then show ?thesis by (simp only: narrow_widen option.inject)
qed

lemma is_linebreak_u_cp: "is_linebreak_u (cp c) = is_linebreak c"
  using cp_range [of c] by (auto simp: is_linebreak_u_def is_linebreak_def)

lemma splitlines_u_acc_widen:
  "splitlines_u_acc (map cp w) (map cp s) = map widen (splitlines_acc w s)"
proof (induction w s rule: splitlines_acc.induct)
  case (1 w)
  show ?case by (simp add: widen_def)
next
  case (2 w c cs)
  then show ?case by (cases cs) (simp_all add: widen_def is_linebreak_u_cp)
qed

lemma splitlines_u_widen: "splitlines_u (widen s) = map widen (splitlines s)"
  using splitlines_u_acc_widen [of "[]" s] by (simp add: splitlines_u_def splitlines_def widen_def)

lemma clean_line_u_widen: "clean_line_u U (widen l) fmt = widen (clean_line l fmt)"
  by (simp add: clean_line_u_def narrow_widen)

lemma join_widen: "join [32] (map widen ls) = widen (join '' '' ls)"
  by (induction "'' ''" ls rule: join.induct) (simp_all add: widen_def cp_def)

lemma filter_widen: "filter (\<lambda>l. l \<noteq> []) (map widen ls) = map widen (filter (\<lambda>l. l \<noteq> []) ls)"
  by (induction ls) (simp_all add: widen_Nil_iff)

lemma lower_u_widen: "lower_u U (widen s) = widen (str_lower s)"
proof -
  have "map (\<lambda>i. let c = widen s ! i in
                   if 0 \<le> c \<and> c < 256 then [cp (lower_char (char_of c))] else lower_wide U (widen s) i)
            [0..<length (widen s)] =
        map (\<lambda>i. [cp (lower_char (s ! i))]) [0..<length s]"
    by (rule map_cong) (simp_all add: widen_def cp_range char_of_cp Let_def)
  also have "\<dots> = map (\<lambda>c. [cp (lower_char c)]) (map (\<lambda>i. s ! i) [0..<length s])"
    by (simp add: comp_def)
  also have "\<dots> = map (\<lambda>c. [cp (lower_char c)]) s" by (simp only: map_nth)
  finally have "lower_u U (widen s) = concat (map (\<lambda>c. [cp (lower_char c)]) s)"
    by (simp only: lower_u_def)
  then show ?thesis by (simp add: widen_def str_lower_def comp_def)
qed

lemma map_squash_widen: "map squash (widen s) = s"
  by (simp add: widen_def squash_def cp_range char_of_cp comp_def)

lemma tokenize_u_widen: "tokenize_u (widen s) k = tokenize s k"
  by (simp add: tokenize_u_def map_squash_widen)

lemma kept_tokens_latin1:
  "kept_tokens U a (widen ` stop) fmt (widen text) = file_tokens a stop fmt text"
proof -
  have m: "widen t \<notin> widen ` stop \<longleftrightarrow> t \<notin> stop" for t
    by (auto dest: inj_widen)
  have l: "map (\<lambda>ln. clean_line_u U ln fmt) (map widen ls) = map widen (map (\<lambda>ln. clean_line ln fmt) ls)" for ls
    by (simp add: clean_line_u_widen comp_def)
  show ?thesis
    by (simp add: kept_tokens_def all_tokens_def file_tokens_def Let_def splitlines_u_widen l
          filter_widen join_widen lower_u_widen tokenize_u_widen m del: map_map)
qed

section \<open>The tables of a run\<close>

lemma map_of_orders: "map_of (map (\<lambda>n. (n, c0)) ns) n = (if n \<in> set ns then Some c0 else None)"
  by (induction ns) simp_all

lemma parse_dir_Inr:
  assumes "parse_dir U fs root a = Inr (wc, nc)"
  shows "load_stopwords U fs (stopwords a) = Inr (stop_of U fs a) \<and>
         parse_loop U a (stop_of U fs a) (iter_files root)
           ([], map_of (map (\<lambda>n. (n, [])) (ngrams a))) = Inr (wc, nc)"
  using assms by (cases "load_stopwords U fs (stopwords a)") (simp_all add: parse_dir_def stop_of_def)

lemma parse_dir_tables:
  assumes "parse_dir U fs root a = Inr (wc, nc)"
  shows "(\<forall>fp \<in> set (iter_files root). \<exists>t. read_file fp = Inr t) \<and>
         wc = update [] (concat (map (entry_tokens U a (stop_of U fs a)) (iter_files root))) \<and>
         dom nc = set (ngrams a) \<and>
         (\<forall>n \<in> set (ngrams a).
            nc n = Some (update [] (concat (map (entry_ngrams U a (stop_of U fs a) n) (iter_files root)))))"
proof -
  let ?nc0 = "map_of (map (\<lambda>n. (n, [])) (ngrams a))"
  have d0: "dom ?nc0 = set (ngrams a)"
    by (auto simp: map_of_orders dom_def)
  from parse_dir_Inr [OF assms] have
    "parse_loop U a (stop_of U fs a) (iter_files root) ([], ?nc0) = Inr (wc, nc)" by simp
  from parse_loop_Inr [OF this] d0 show ?thesis
    by (simp add: map_of_orders)
qed

lemma load_stopwords_default:
  assumes "load_stopwords U fs p = Inr stop"
  shows "widen ` set DEFAULT_STOPWORDS \<subseteq> stop"
  using assms by (auto simp: load_stopwords_def Let_def split: option.splits if_splits sum.splits)

lemma load_stopwords_file:
  assumes "load_stopwords U fs (Some p) = Inr stop" "p \<noteq> []" "is_file (fs p)"
    "read_text Utf8 Strict (raw (fs p)) = Inr tx" "ln \<in> set (splitlines_u tx)" "strip_u ln \<noteq> []"
  shows "lower_u U (strip_u ln) \<in> stop"
  using assms by (auto simp: load_stopwords_def Let_def)

text \<open>
  For evaluation: the union with the stopwords of the file, the few words first.
\<close>

lemma load_stopwords_code [code]:
  "load_stopwords U fs path =
    (let sw = set (map widen DEFAULT_STOPWORDS) in
     case path of
       None \<Rightarrow> Inr sw
     | Some p \<Rightarrow>
         if p = [] then Inr sw
         else if is_file (fs p) then
           (case read_text Utf8 Strict (raw (fs p)) of
              Inl e \<Rightarrow> Inl e
            | Inr text \<Rightarrow>
                Inr (set (map (\<lambda>ln. lower_u U (strip_u ln))
                            (filter (\<lambda>ln. strip_u ln \<noteq> []) (splitlines_u text))) \<union> sw))
         else Inr sw)"
  by (simp add: load_stopwords_def Let_def Un_commute split: option.splits sum.splits)

lemma count_list_concat: "count_list (concat xss) k = sum_list (map (\<lambda>xs. count_list xs k) xss)"
  by (induction xss) simp_all

lemma count_list_filter: "count_list (filter P xs) k = (if P k then count_list xs k else 0)"
  by (induction xs) auto

lemma count_of_Nil: "count_of [] k = 0"
  by (simp add: count_of_def)

lemma total_Nil: "total_count [] = 0"
  by (simp add: total_count_def)

lemma keys_Nil: "keys [] = {}"
  by (simp add: keys_def)

lemma sum_list_mset_cong:
  fixes f :: "'a \<Rightarrow> nat"
  assumes "mset xs = mset ys"
  shows "sum_list (map f xs) = sum_list (map f ys)"
proof -
  have "sum_list (map f xs) = sum_mset (image_mset f (mset xs))"
    by (simp only: sum_mset_sum_list [symmetric] mset_map)
  also have "\<dots> = sum_mset (image_mset f (mset ys))" by (simp only: assms)
  also have "\<dots> = sum_list (map f ys)"
    by (simp only: sum_mset_sum_list [symmetric] mset_map)
  finally show ?thesis .
qed

text \<open>
  Claim C4.  When a run returns its tables, the unigram table is the key-wise sum of
  the tables of the files.  The table of a file counts a token as often as it stands
  among the tokens of the file (lines 132 to 138) when the token has at least
  \<^verbatim>\<open>minlen\<close> characters and is no stopword, and not at all otherwise; the total is
  the number of the tokens of the files that pass these two filters; every key
  passes them and is none of the built-in stopwords; every line of the stopword file,
  stripped and in lower case, is a stopword; and a run over the same files in any
  other order returns the same counts.  The files hold any code points.
\<close>

theorem unigram_table_is_sum_of_file_tables:
  assumes run: "parse_dir U fs root a = Inr (wc, nc)"
  shows "(\<forall>k. count_of wc k = (\<Sum>fp\<leftarrow>iter_files root. count_of (file_table U a (stop_of U fs a) fp) k)) \<and>
         (\<forall>fp k. count_of (file_table U a (stop_of U fs a) fp) k =
              (if minlen a \<le> int (length k) \<and> widen k \<notin> stop_of U fs a
               then count_list (entry_all_tokens U a fp) k else 0)) \<and>
         total_count wc =
           (\<Sum>fp\<leftarrow>iter_files root.
              length (filter (\<lambda>t. minlen a \<le> int (length t) \<and> widen t \<notin> stop_of U fs a)
                        (entry_all_tokens U a fp))) \<and>
         (\<forall>k \<in> keys wc. minlen a \<le> int (length k) \<and> widen k \<notin> stop_of U fs a \<and>
                         k \<notin> set DEFAULT_STOPWORDS) \<and>
         (\<forall>p tx ln. stopwords a = Some p \<and> p \<noteq> [] \<and> is_file (fs p) \<and>
                    read_text Utf8 Strict (raw (fs p)) = Inr tx \<and>
                    ln \<in> set (splitlines_u tx) \<and> strip_u ln \<noteq> [] \<longrightarrow>
                    lower_u U (strip_u ln) \<in> stop_of U fs a) \<and>
         (\<forall>root'. mset root' = mset root \<longrightarrow>
            (\<exists>wc' nc'. parse_dir U fs root' a = Inr (wc', nc') \<and> (\<forall>k. count_of wc' k = count_of wc k)))"
proof (intro conjI allI impI ballI)
  let ?stop = "stop_of U fs a"
  let ?nc0 = "map_of (map (\<lambda>n. (n, [])) (ngrams a))"
  note tb = parse_dir_tables [OF run]
  have sw: "load_stopwords U fs (stopwords a) = Inr ?stop"
    using parse_dir_Inr [OF run] by simp
  have wc: "wc = update [] (concat (map (entry_tokens U a ?stop) (iter_files root)))"
    using tb by simp
  have cnt: "count_of (update [] (concat (map (entry_tokens U a ?stop) fps))) k =
             (\<Sum>fp\<leftarrow>fps. count_of (file_table U a ?stop fp) k)" for fps k
    by (simp add: count_of_update count_of_Nil count_list_concat file_table_def entry_tokens_def comp_def)
  show "count_of wc k = (\<Sum>fp\<leftarrow>iter_files root. count_of (file_table U a ?stop fp) k)" for k
    unfolding wc by (rule cnt)
  show "count_of (file_table U a ?stop fp) k =
          (if minlen a \<le> int (length k) \<and> widen k \<notin> ?stop
           then count_list (entry_all_tokens U a fp) k else 0)" for fp k
    by (simp add: file_table_def count_of_update count_of_Nil count_list_filter passes_def)
  show "total_count wc =
          (\<Sum>fp\<leftarrow>iter_files root.
             length (filter (\<lambda>t. minlen a \<le> int (length t) \<and> widen t \<notin> ?stop) (entry_all_tokens U a fp)))"
    unfolding wc
    by (simp add: total_update total_Nil length_concat comp_def entry_tokens_def passes_eq)
  show "minlen a \<le> int (length k)" "widen k \<notin> ?stop" "k \<notin> set DEFAULT_STOPWORDS" if "k \<in> keys wc" for k
  proof -
    from that obtain fp where "k \<in> set (entry_tokens U a ?stop fp)"
      unfolding wc by (auto simp: keys_update keys_Nil)
    then have p: "passes a ?stop k" by (simp add: entry_tokens_def)
    then show "minlen a \<le> int (length k)" "widen k \<notin> ?stop" by (simp_all add: passes_def)
    then show "k \<notin> set DEFAULT_STOPWORDS" using load_stopwords_default [OF sw] by blast
  qed
  show "lower_u U (strip_u ln) \<in> ?stop"
    if "stopwords a = Some p \<and> p \<noteq> [] \<and> is_file (fs p) \<and>
        read_text Utf8 Strict (raw (fs p)) = Inr tx \<and> ln \<in> set (splitlines_u tx) \<and> strip_u ln \<noteq> []"
    for p tx ln
    using that sw by (auto intro: load_stopwords_file)
  fix root' :: "entry list"
  assume perm: "mset root' = mset root"
  have mf: "mset (iter_files root') = mset (iter_files root)"
    unfolding iter_files_def by (simp only: mset_filter perm)
  then have "set (iter_files root') = set (iter_files root)" by (rule mset_eq_setD)
  then have readable: "\<forall>fp \<in> set (iter_files root'). \<exists>t. read_file fp = Inr t"
    using tb by simp
  have d0: "set (ngrams a) \<subseteq> dom ?nc0"
    by (auto simp: map_of_orders dom_def)
  from parse_loop_total [OF d0 readable, of U ?stop "[]"] obtain wc' nc' where
    r': "parse_loop U a ?stop (iter_files root') ([], ?nc0) = Inr (wc', nc')" by force
  have run': "parse_dir U fs root' a = Inr (wc', nc')"
    using r' sw by (simp add: parse_dir_def)
  have wc': "wc' = update [] (concat (map (entry_tokens U a ?stop) (iter_files root')))"
    using parse_loop_Inr [OF r'] by simp
  have "count_of wc' k = count_of wc k" for k
    unfolding wc wc' cnt by (rule sum_list_mset_cong [OF mf])
  with run' show "\<exists>wc' nc'. parse_dir U fs root' a = Inr (wc', nc') \<and> (\<forall>k. count_of wc' k = count_of wc k)"
    by blast
qed

theorem unigram_table_is_sum_of_file_tables_witness:
  "\<exists>wc nc. parse_dir plain_unicode (stopword_file ''stop.txt'' ''Science'')
        [text_file ''.txt'' ''data science'',
         bytes_file ''.srt'' [0x31, 0x0A, 0x44, 0x6F, 0x6E, 0xE2, 0x80, 0x99, 0x74, 0x20, 0x6B, 0x6E, 0x6F, 0x77,
                              0x20, 0x64, 0x61, 0x74, 0x61, 0x0A]]
        (default_args\<lparr>stopwords := Some ''stop.txt''\<rparr>)
       = Inr (wc, nc) \<and> total_count wc = 4 \<and> count_of wc ''data'' = 2 \<and> count_of wc ''t'' = 0 \<and>
         count_of wc ''science'' = 0 \<and>
     (\<exists>wc' nc'. parse_dir plain_unicode (stopword_file ''stop.txt'' ''Science'')
        [bytes_file ''.srt'' [0x31, 0x0A, 0x44, 0x6F, 0x6E, 0xE2, 0x80, 0x99, 0x74, 0x20, 0x6B, 0x6E, 0x6F, 0x77,
                              0x20, 0x64, 0x61, 0x74, 0x61, 0x0A],
         text_file ''.txt'' ''data science'']
        (default_args\<lparr>stopwords := Some ''stop.txt''\<rparr>)
       = Inr (wc', nc') \<and> count_of wc' ''data'' = 2)"
proof -
  let ?wide = "bytes_file ''.srt'' [0x31, 0x0A, 0x44, 0x6F, 0x6E, 0xE2, 0x80, 0x99, 0x74, 0x20, 0x6B, 0x6E, 0x6F, 0x77,
                              0x20, 0x64, 0x61, 0x74, 0x61, 0x0A]"
  let ?root = "[text_file ''.txt'' ''data science'', ?wide]"
  let ?root' = "[?wide, text_file ''.txt'' ''data science'']"
  let ?fs = "stopword_file ''stop.txt'' ''Science''"
  let ?a = "default_args\<lparr>stopwords := Some ''stop.txt''\<rparr>"
  let ?r = "parse_dir plain_unicode ?fs ?root ?a"
  let ?stop = "stop_of plain_unicode ?fs ?a"
  have "word_table ?r = Some [(''data'', 2), (''don'', 1), (''know'', 1)]" by code_simp
  then obtain wc nc where run: "?r = Inr (wc, nc)"
    by (cases ?r) (auto simp: word_table_def)
  note th = unigram_table_is_sum_of_file_tables [OF run]
  note c1 = th [THEN conjunct1, rule_format]
  note c2 = th [THEN conjunct2, THEN conjunct1, rule_format]
  note c3 = th [THEN conjunct2, THEN conjunct2, THEN conjunct1]
  note c5 = th [THEN conjunct2, THEN conjunct2, THEN conjunct2, THEN conjunct2, THEN conjunct1, rule_format]
  note c6 = th [THEN conjunct2, THEN conjunct2, THEN conjunct2, THEN conjunct2, THEN conjunct2, rule_format]
  have s1: "(\<Sum>fp\<leftarrow>iter_files ?root.
               length (filter (\<lambda>t. minlen ?a \<le> int (length t) \<and> widen t \<notin> ?stop)
                         (entry_all_tokens plain_unicode ?a fp))) = 4"
    by code_simp
  have s2: "(\<Sum>fp\<leftarrow>iter_files ?root. count_of (file_table plain_unicode ?a ?stop fp) ''data'') = 2"
    by code_simp
  have s3: "\<not> minlen ?a \<le> int (length ''t'')" by (simp add: default_args_def)
  have z: "count_of (file_table plain_unicode ?a ?stop fp) ''t'' = 0" for fp
    by (simp only: c2 s3 simp_thms if_False)
  have f1: "stopwords ?a = Some ''stop.txt'' \<and> ''stop.txt'' \<noteq> [] \<and> is_file (?fs ''stop.txt'') \<and>
            read_text Utf8 Strict (raw (?fs ''stop.txt'')) = Inr (widen ''Science'') \<and>
            widen ''Science'' \<in> set (splitlines_u (widen ''Science'')) \<and>
            strip_u (widen ''Science'') \<noteq> []"
    by code_simp
  have f2: "lower_u plain_unicode (strip_u (widen ''Science'')) = widen ''science''" by code_simp
  from c5 [OF f1] have m: "widen ''science'' \<in> ?stop" by (simp only: f2)
  have y: "count_of (file_table plain_unicode ?a ?stop fp) ''science'' = 0" for fp
    by (simp only: c2 m simp_thms if_False)
  have t1: "total_count wc = 4" by (simp only: c3 s1)
  have t2: "count_of wc ''data'' = 2" by (simp only: c1 s2)
  have "count_of wc ''t'' = (\<Sum>fp\<leftarrow>iter_files ?root. 0)" by (simp only: c1 z)
  then have t3: "count_of wc ''t'' = 0" by simp
  have "count_of wc ''science'' = (\<Sum>fp\<leftarrow>iter_files ?root. 0)" by (simp only: c1 y)
  then have t4: "count_of wc ''science'' = 0" by simp
  have p: "mset ?root' = mset ?root" by (simp add: add.commute)
  from c6 [OF p] obtain wc' nc' where r': "parse_dir plain_unicode ?fs ?root' ?a = Inr (wc', nc')"
    and e': "\<And>k. count_of wc' k = count_of wc k" by blast
  have "count_of wc' ''data'' = 2" by (simp only: e' t2)
  with r' have "\<exists>wc' nc'. parse_dir plain_unicode ?fs ?root' ?a = Inr (wc', nc') \<and>
                  count_of wc' ''data'' = 2" by blast
  with run t1 t2 t3 t4 show ?thesis by blast
qed

lemma tokenize_loop_nonempty:
  assumes "\<forall>t \<in> set out. t \<noteq> []"
  shows "\<forall>t \<in> set (tokenize_loop keep out raws). t \<noteq> []"
  using assms
proof (induction raws arbitrary: out)
  case Nil
  then show ?case by simp
next
  case (Cons raw raws)
  let ?tok = "remove_apostrophes (re_sub APOST_EDGES [] raw)"
  show ?case
  proof (cases "\<not> keep \<and> isdigit ?tok")
    case True
    then show ?thesis using Cons.IH [OF Cons.prems] by (simp add: Let_def)
  next
    case False
    show ?thesis
    proof (cases "?tok = []")
      case True
      then show ?thesis using False Cons.IH [OF Cons.prems] by (simp add: Let_def)
    next
      case ne: False
      have "\<forall>t \<in> set (out @ [?tok]). t \<noteq> []" using Cons.prems ne by simp
      from Cons.IH [OF this] show ?thesis using False ne by (auto simp add: Let_def)
    qed
  qed
qed

lemma count_list_pos: "x \<in> set xs \<Longrightarrow> 0 < count_list xs x"
  by (induction xs) auto

lemma tokenize_nonempty: "t \<in> set (tokenize s k) \<Longrightarrow> t \<noteq> []"
  using tokenize_loop_nonempty [of "[]"] by (auto simp: tokenize_def Let_def)

lemma entry_tokens_nonempty: "t \<in> set (entry_tokens U a stop fp) \<Longrightarrow> t \<noteq> []"
  by (cases "read_file fp")
     (auto simp: entry_tokens_def entry_all_tokens_def all_tokens_def tokenize_u_def Let_def
           dest: tokenize_nonempty)

lemma join_nonempty: "xs \<noteq> [] \<Longrightarrow> hd xs \<noteq> [] \<Longrightarrow> join sep xs \<noteq> []"
  by (induction sep xs rule: join.induct) simp_all

lemma make_ngrams_nonempty:
  assumes "1 \<le> n" "\<forall>t \<in> set tokens. t \<noteq> []"
  shows "[] \<notin> set (make_ngrams tokens n)"
proof (cases "int (length tokens) < n")
  case True
  then show ?thesis by (simp add: make_ngrams_def)
next
  case False
  then have le: "n \<le> int (length tokens)" by simp
  have eq: "make_ngrams tokens n =
         map (\<lambda>i. join '' '' (take (nat n) (drop i tokens))) [0..<length tokens - nat n + 1]"
    using make_ngrams_eq [of n tokens] assms le by simp
  have "join '' '' (take (nat n) (drop i tokens)) \<noteq> []" if "i < length tokens - nat n + 1" for i
  proof -
    have i: "i < length tokens" using that le assms by linarith
    have ne: "take (nat n) (drop i tokens) \<noteq> []" using i assms by simp
    have "hd (take (nat n) (drop i tokens)) = tokens ! i"
      using i assms by (simp add: hd_drop_conv_nth)
    then have "hd (take (nat n) (drop i tokens)) \<noteq> []" using assms i by simp
    with ne show ?thesis by (rule join_nonempty)
  qed
  then have "\<forall>g \<in> set (map (\<lambda>i. join '' '' (take (nat n) (drop i tokens)))
                          [0..<length tokens - nat n + 1]). g \<noteq> []"
    by (simp only: set_map ball_simps set_upt atLeastLessThan_iff) simp
  then show ?thesis unfolding eq by blast
qed

text \<open>
  Claim C8, amended.  When every requested order is at least 1, no table a run
  returns has the empty string as a key: not the unigram table, and not the table of
  any order.  The files hold any code points.
\<close>

theorem no_empty_key_for_positive_orders:
  assumes run: "parse_dir U fs root a = Inr (wc, nc)" and pos: "\<forall>n \<in> set (ngrams a). 1 \<le> n"
  shows "[] \<notin> keys wc \<and> (\<forall>n c. nc n = Some c \<longrightarrow> [] \<notin> keys c)"
proof (intro conjI allI impI)
  note tb = parse_dir_tables [OF run]
  show "[] \<notin> keys wc"
    using tb by (auto simp: keys_update keys_Nil dest: entry_tokens_nonempty)
  fix n c assume h: "nc n = Some c"
  then have "n \<in> dom nc" by blast
  then have n: "n \<in> set (ngrams a)" using tb by simp
  then have c: "c = update [] (concat (map (entry_ngrams U a (stop_of U fs a) n) (iter_files root)))"
    using tb h by simp
  have "[] \<notin> set (entry_ngrams U a (stop_of U fs a) n fp)" for fp
    using make_ngrams_nonempty [of n "entry_tokens U a (stop_of U fs a) fp"] pos n
    by (auto simp: entry_ngrams_def dest: entry_tokens_nonempty)
  then show "[] \<notin> keys c" unfolding c by (auto simp: keys_update keys_Nil)
qed

theorem no_empty_key_for_positive_orders_witness:
  "(1::int) \<le> 2 \<and>
   (\<exists>wc nc c. parse_dir plain_unicode no_files
        [bytes_file ''.txt'' [0x44, 0x61, 0x74, 0x61, 0x20, 0x73, 0x63, 0x69, 0x65, 0x6E, 0x63, 0x65, 0x20,
                              0xE2, 0x80, 0x94, 0x20, 0x72, 0x6F, 0x63, 0x6B, 0x73]]
        (default_args\<lparr>ngrams := [2]\<rparr>)
        = Inr (wc, nc) \<and> nc 2 = Some c \<and> [] \<notin> keys wc \<and> [] \<notin> keys c \<and>
        c = [(''data science'', 1), (''science rocks'', 1)])"
proof -
  let ?a = "default_args\<lparr>ngrams := [2]\<rparr>"
  let ?r = "parse_dir plain_unicode no_files
        [bytes_file ''.txt'' [0x44, 0x61, 0x74, 0x61, 0x20, 0x73, 0x63, 0x69, 0x65, 0x6E, 0x63, 0x65, 0x20,
                              0xE2, 0x80, 0x94, 0x20, 0x72, 0x6F, 0x63, 0x6B, 0x73]] ?a"
  have t: "ngram_table ?r 2 = Some [(''data science'', 1), (''science rocks'', 1)]" by code_simp
  then obtain wc nc where run: "?r = Inr (wc, nc)"
    and nc: "nc 2 = Some [(''data science'', 1), (''science rocks'', 1)]"
    by (cases ?r) (auto simp: ngram_table_def)
  have pos: "\<forall>n \<in> set (ngrams ?a). 1 \<le> n" by (simp add: default_args_def)
  from no_empty_key_for_positive_orders [OF run pos] nc run show ?thesis by auto
qed

text \<open>
  The claim as stated, for every requested order, fails at order 0: the table of
  order 0 has the empty string as its only key.
\<close>

theorem empty_key_at_order_zero:
  "ngram_table (parse_dir plain_unicode no_files [text_file ''.txt'' ''data science'']
                  (default_args\<lparr>ngrams := [0]\<rparr>)) 0
     = Some [([], 3)] \<and> [] \<in> keys [([], 3)]"
  by code_simp

text \<open>
  Claim C10.  With n = 0, \<^verbatim>\<open>make_ngrams\<close> returns \<open>length tokens + 1\<close> empty phrases.
  The orders of \<^verbatim>\<open>--ngrams\<close> are any integers, so a run that is asked for order 0 and
  reads at least one file returns a table of order 0 in which the empty string has a
  positive count.
\<close>

theorem make_ngrams_order_zero:
  "make_ngrams tokens 0 = replicate (length tokens + 1) [] \<and>
   (parse_dir U fs root a = Inr (wc, nc) \<and> 0 \<in> set (ngrams a) \<and> iter_files root \<noteq> [] \<longrightarrow>
      (\<exists>c. nc 0 = Some c \<and> 0 < count_of c []))"
proof (intro conjI impI)
  show "make_ngrams tokens 0 = replicate (length tokens + 1) []" by (rule make_ngrams_zero)
next
  assume h: "parse_dir U fs root a = Inr (wc, nc) \<and> 0 \<in> set (ngrams a) \<and> iter_files root \<noteq> []"
  then have run: "parse_dir U fs root a = Inr (wc, nc)" and z: "0 \<in> set (ngrams a)"
    and ne: "iter_files root \<noteq> []" by simp_all
  let ?stop = "stop_of U fs a"
  let ?grams = "concat (map (entry_ngrams U a ?stop 0) (iter_files root))"
  from parse_dir_tables [OF run] z have c: "nc 0 = Some (update [] ?grams)" by simp
  from ne obtain fp where fp: "fp \<in> set (iter_files root)" by (cases "iter_files root") auto
  have "0 < count_list (ngrams a) 0" using z by (rule count_list_pos)
  then obtain m where m: "count_list (ngrams a) 0 = Suc m" by (cases "count_list (ngrams a) 0") auto
  have "[] \<in> set (entry_ngrams U a ?stop 0 fp)"
    by (simp add: entry_ngrams_def m make_ngrams_zero)
  with fp have "[] \<in> set ?grams" by auto
  then have "0 < count_list ?grams []" by (rule count_list_pos)
  then have "0 < count_of (update [] ?grams) []" by (simp add: count_of_update)
  with c show "\<exists>c. nc 0 = Some c \<and> 0 < count_of c []" by blast
qed

theorem make_ngrams_order_zero_witness:
  "ngram_table (parse_dir plain_unicode no_files [text_file ''.txt'' ''hello''] (default_args\<lparr>ngrams := [0]\<rparr>)) 0
     = Some [([], 2)] \<and>
   0 < count_of [([], 2)] [] \<and> make_ngrams [''hello''] 0 = [[], []]"
proof -
  let ?a = "default_args\<lparr>ngrams := [0]\<rparr>"
  let ?root = "[text_file ''.txt'' ''hello'']"
  let ?r = "parse_dir plain_unicode no_files ?root ?a"
  have t: "ngram_table ?r 0 = Some [([], 2)]" by code_simp
  then obtain wc nc where run: "?r = Inr (wc, nc)" and nc: "nc 0 = Some [([], 2)]"
    by (cases ?r) (auto simp: ngram_table_def)
  have z: "0 \<in> set (ngrams ?a)" by (simp add: default_args_def)
  have f: "iter_files ?root \<noteq> []" by code_simp
  from make_ngrams_order_zero [where tokens = "[''hello'']" and U = plain_unicode and fs = no_files
      and root = ?root and a = ?a and wc = wc and nc = nc] run z f
  have m: "make_ngrams [''hello''] 0 = replicate (length [''hello''] + 1) []"
    and "\<exists>c. nc 0 = Some c \<and> 0 < count_of c []" by blast+
  with nc have "0 < count_of [([], 2)] []" by auto
  with t m show ?thesis by simp
qed

lemma read_file_both_fail:
  assumes "raw fp = Inl e1" "raw_retry fp = Inl e2"
  shows "read_file fp = Inl (OSError e2)"
  using assms by (simp add: read_file_def read_text_def)

text \<open>
  Claim C3, amended.  No file is skipped.  When the first read of a file raises, the
  file is read a second time as latin-1; when that read raises too, the exception
  leaves \<^verbatim>\<open>parse_dir\<close> and the run ends without tables.  When the second read
  succeeds, its bytes are the text, one character for each byte (line ends
  translated).
\<close>

theorem read_error_ends_the_run:
  "(fp \<in> set (iter_files root) \<and> raw fp = Inl e1 \<and> raw_retry fp = Inl e2 \<longrightarrow>
      (\<exists>f. parse_dir U fs root a = Inl f)) \<and>
   (raw fp = Inl e1 \<and> raw_retry fp = Inr bs \<longrightarrow> read_file fp = Inr (universal_newlines (map uint bs)))"
proof (intro conjI impI)
  assume "fp \<in> set (iter_files root) \<and> raw fp = Inl e1 \<and> raw_retry fp = Inl e2"
  then have mem: "fp \<in> set (iter_files root)" and ft: "read_file fp = Inl (OSError e2)"
    by (simp_all add: read_file_both_fail)
  show "\<exists>f. parse_dir U fs root a = Inl f"
  proof (cases "load_stopwords U fs (stopwords a)")
    case (Inl f)
    then show ?thesis by (simp add: parse_dir_def)
  next
    case (Inr stop)
    from parse_loop_fails [OF mem ft] show ?thesis using Inr by (simp add: parse_dir_def)
  qed
next
  assume "raw fp = Inl e1 \<and> raw_retry fp = Inr bs"
  then show "read_file fp = Inr (universal_newlines (map uint bs))"
    by (simp add: read_file_def read_text_def decode_def)
qed

theorem read_error_ends_the_run_witness:
  "unreadable_file ''.txt'' \<in> set (iter_files [text_file ''.txt'' ''hello'', unreadable_file ''.txt'']) \<and>
   raw (unreadable_file ''.txt'') = Inl PermissionError \<and>
   raw_retry (unreadable_file ''.txt'') = Inl PermissionError \<and>
   (\<exists>f. parse_dir plain_unicode no_files [text_file ''.txt'' ''hello'', unreadable_file ''.txt''] default_args
          = Inl f) \<and>
   read_file \<lparr>suffix = ''.txt'', is_file = True, raw = Inl OtherOSError, raw_retry = Inr [0x68, 0xE9]\<rparr>
     = Inr [104, 233]"
proof -
  let ?bad = "unreadable_file ''.txt''"
  let ?root = "[text_file ''.txt'' ''hello'', ?bad]"
  let ?again = "\<lparr>suffix = ''.txt'', is_file = True, raw = Inl OtherOSError, raw_retry = Inr [0x68, 0xE9 :: byte]\<rparr>"
  have m: "?bad \<in> set (iter_files ?root)"
    by (simp add: iter_files_def unreadable_file_def text_file_def str_lower_def lower_char_def cp_def)
  have r: "raw ?bad = Inl PermissionError" "raw_retry ?bad = Inl PermissionError"
    by (simp_all add: unreadable_file_def)
  from read_error_ends_the_run [where fp = ?bad and root = ?root and ?e1.0 = PermissionError
      and ?e2.0 = PermissionError and U = plain_unicode and fs = no_files and a = default_args] m r
  have a: "\<exists>f. parse_dir plain_unicode no_files ?root default_args = Inl f" by blast
  from read_error_ends_the_run [where fp = ?again and ?e1.0 = OtherOSError and bs = "[0x68, 0xE9]"]
  have "read_file ?again = Inr (universal_newlines (map uint [0x68, 0xE9 :: byte]))" by simp
  then have b: "read_file ?again = Inr [104, 233]" by simp
  from m r a b show ?thesis by blast
qed

text \<open>
  The claim as stated fails: with an unreadable file first and a readable file
  second, the run ends in the exception of the first file, while the second file
  alone gives its table.
\<close>

theorem unreadable_file_is_not_skipped:
  "failure_of (parse_dir plain_unicode no_files [unreadable_file ''.txt'', text_file ''.txt'' ''hello''] default_args)
     = Some (OSError PermissionError) \<and>
   word_table (parse_dir plain_unicode no_files [text_file ''.txt'' ''hello''] default_args) = Some [(''hello'', 1)]"
  by code_simp

section \<open>Cleaning a clean line\<close>

declare sub_from.simps [simp del]

lemma sub_from_no_match: "\<not> search_from p b s \<Longrightarrow> sub_from p repl b s = s"
proof (induction s arbitrary: b)
  case Nil
  then show ?case by (subst sub_from.simps) simp
next
  case (Cons c cs)
  then have "ends (fst p) (snd p) (b, c # cs) = []" and "\<not> search_from p (c # b) cs" by simp_all
  with Cons.IH [of "c # b"] show ?case by (subst sub_from.simps) simp
qed

lemma re_sub_no_match: "\<not> re_search p s \<Longrightarrow> re_sub p repl s = s"
  unfolding re_search_def re_sub_def by (rule sub_from_no_match)

lemma strip_clean_ends: "clean_ends (strip s)"
proof -
  let ?v = "dropWhile is_space (rev s)"
  let ?u = "dropWhile is_space (rev ?v)"
  show ?thesis
  proof (cases "?u = []")
    case True
    then show ?thesis by (simp add: clean_ends_def strip_def)
  next
    case False
    then have h: "\<not> is_space (hd ?u)" by (rule hd_dropWhile)
    have "?v = [] \<Longrightarrow> ?u = []" by (simp only: rev.simps dropWhile.simps)
    with False have v: "?v \<noteq> []" by blast
    then have hv: "\<not> is_space (hd ?v)" by (rule hd_dropWhile)
    obtain k where k: "?u = drop k (rev ?v)" using dropWhile_eq_drop by blast
    with False have "k < length (rev ?v)" by simp
    then have "last ?u = last (rev ?v)" unfolding k by (simp add: last_drop)
    also have "\<dots> = hd ?v" using v by (simp add: last_rev)
    finally have "\<not> is_space (last ?u)" using hv by simp
    with h False show ?thesis by (simp add: clean_ends_def strip_def)
  qed
qed

lemma strip_id: "clean_ends u \<Longrightarrow> strip u = u"
proof (cases "u = []")
  case True
  then show ?thesis by (simp add: strip_def)
next
  case False
  assume "clean_ends u"
  with False have h: "\<not> is_space (hd u)" and l: "\<not> is_space (last u)"
    by (simp_all add: clean_ends_def)
  have "hd (rev u) = last u" using False by (simp add: hd_rev)
  with l have "dropWhile is_space (rev u) = rev u" using False
    by (simp add: dropWhile_eq_self_iff)
  moreover have "dropWhile is_space u = u" using h by (simp add: dropWhile_eq_self_iff)
  ultimately show ?thesis by (simp add: strip_def)
qed

lemma rstrip_id: "clean_ends u \<Longrightarrow> rstrip_chars [CHR 0x0D, CHR 0x0A] u = u"
proof (cases "u = []")
  case True
  then show ?thesis by (simp add: rstrip_chars_def)
next
  case False
  assume "clean_ends u"
  with False have l: "\<not> is_space (last u)" by (simp add: clean_ends_def)
  have "is_space (CHR 0x0D)" "is_space (CHR 0x0A)" by (simp_all add: is_space_def cp_def)
  with l have "last u \<notin> set [CHR 0x0D, CHR 0x0A]" by auto
  moreover have "hd (rev u) = last u" using False by (simp add: hd_rev)
  ultimately have "dropWhile (\<lambda>c. c \<in> set [CHR 0x0D, CHR 0x0A]) (rev u) = rev u"
    using False by (simp only: dropWhile_eq_self_iff) simp
  then show ?thesis by (simp add: rstrip_chars_def)
qed

lemma clean_line_clean_ends: "clean_ends (clean_line s fmt)"
proof -
  have e: "clean_ends []" by (simp add: clean_ends_def)
  show ?thesis
    unfolding clean_line_def Let_def by (simp only: e strip_clean_ends if_split) simp
qed

lemma strip_timestamps_no_match:
  assumes "\<not> re_search RANGE_VTT t" "\<not> re_search STAMP_BRACKETED t" "\<not> re_search STAMP_HMS_MS t"
    "\<not> re_search STAMP_HMS t" "\<not> re_search STAMP_MS t"
  shows "strip_timestamps_everywhere t = t"
  using assms by (simp add: strip_timestamps_everywhere_def re_sub_no_match)

lemma clean_line_fixed:
  assumes c: "clean_ends t" and n: "nothing_to_strip fmt t"
  shows "clean_line t fmt = t"
proof (cases "t = []")
  case True
  then show ?thesis by (simp add: clean_line_def rstrip_chars_def)
next
  case False
  have r: "rstrip_chars [CHR 0x0D, CHR 0x0A] t = t" using c by (rule rstrip_id)
  have s: "strip t = t" using c by (rule strip_id)
  have ts: "strip_timestamps_everywhere t = t"
    using n by (intro strip_timestamps_no_match) (simp_all add: nothing_to_strip_def)
  have subs: "re_sub URL '' '' t = t" "re_sub HTML_TAG '' '' t = t" "re_sub SPEAKER_PREFIX [] t = t"
    using n by (simp_all add: nothing_to_strip_def re_sub_no_match)
  have cue: "fmt = Vtt \<Longrightarrow> re_sub VTT_CUE_TAG '' '' t = t"
    using n by (simp add: nothing_to_strip_def re_sub_no_match)
  have hdr: "\<not> (fmt = Vtt \<and> re_match WEBVTT_HEADER t)" "\<not> (fmt = Srt \<and> re_match LINE_NUMBER_SRT t)"
    using n by (auto simp add: nothing_to_strip_def)
  have nb: "\<not> ((startswith t CHR ''('' \<and> endswith t CHR '')'') \<or>
                (startswith t CHR ''['' \<and> endswith t CHR '']''))"
    using n by (simp add: nothing_to_strip_def bracketed_cue_def)
  show ?thesis
  proof (cases "fmt = Vtt")
    case True
    then show ?thesis using False r s ts subs cue hdr nb by (simp add: clean_line_def)
  next
    case nv: False
    then show ?thesis using False r s ts subs hdr nb by (simp add: clean_line_def)
  qed
qed

text \<open>
  Claim C1, amended.  Cleaning the output of \<^verbatim>\<open>clean_line\<close> again changes nothing
  whenever that output is already clean: no rule of the cleaner applies to it.
\<close>

theorem clean_line_idempotent_on_clean_output: "nothing_to_strip fmt (clean_line s fmt) \<Longrightarrow>
   clean_line (clean_line s fmt) fmt = clean_line s fmt"
  by (rule clean_line_fixed [OF clean_line_clean_ends])

theorem clean_line_idempotent_on_clean_output_witness:
  "nothing_to_strip Txt (clean_line ''Alice: hello [00:12] there'' Txt) \<and>
   clean_line ''Alice: hello [00:12] there'' Txt = ''hello   there'' \<and>
   clean_line ''hello   there'' Txt = ''hello   there''"
proof -
  have h: "nothing_to_strip Txt (clean_line ''Alice: hello [00:12] there'' Txt)" by code_simp
  have e: "clean_line ''Alice: hello [00:12] there'' Txt = ''hello   there''" by code_simp
  from clean_line_idempotent_on_clean_output [OF h] h e show ?thesis by simp
qed

text \<open>
  The claim as stated fails: only one speaker prefix is removed at a time, so a line
  with two of them is cleaned to a line that still has one.
\<close>

theorem clean_line_not_idempotent:
  "clean_line ''A: B: c'' Txt = ''B: c'' \<and> clean_line ''B: c'' Txt = ''c''"
  by code_simp

section \<open>Non-speech cues\<close>

text \<open>
  Claim C2.  \<^verbatim>\<open>clean_line\<close> tests for the wrapping parentheses or brackets before
  it trims the line.  A cue with whitespace around it, also the whitespace that has
  just replaced a timestamp or a tag, is therefore kept, while the cue on its own is
  dropped.
\<close>

theorem padded_cue_is_kept:
  "clean_line '' (laughter)'' Txt = ''(laughter)'' \<and>
   clean_line ''[00:01:23] (laughter)'' Txt = ''(laughter)'' \<and>
   clean_line ''<c>(laughter)</c>'' Vtt = ''(laughter)'' \<and>
   clean_line ''(laughter)'' Txt = []"
  by code_simp

section \<open>Timestamps\<close>

text \<open>
  Claim C5.  \<^verbatim>\<open>strip_timestamps_everywhere\<close> is the five rules applied once each
  over the whole string, in the order range, bracketed, \<^verbatim>\<open>HH:MM:SS.mmm\<close>,
  \<^verbatim>\<open>HH:MM:SS\<close>, \<^verbatim>\<open>MM:SS\<close>, every match replaced by one space: a range becomes
  one space and not two, each of the shapes alone becomes one space, and no rule is
  applied a second time (in the last line the bracketed rule would match the result
  of the fourth rule, and is not tried again).
\<close>

theorem strip_timestamps_rules_in_order:
  "strip_timestamps_everywhere s = apply_once_each timestamp_rules s \<and>
   strip_timestamps_everywhere ''00:01:23.456 --> 00:01:25,789'' = '' '' \<and>
   strip_timestamps_everywhere ''[01:23]'' = '' '' \<and>
   strip_timestamps_everywhere ''[00:01:23]'' = '' '' \<and>
   strip_timestamps_everywhere ''00:01:23,456'' = '' '' \<and>
   strip_timestamps_everywhere ''00:01:23'' = '' '' \<and>
   strip_timestamps_everywhere ''1:23'' = '' '' \<and>
   strip_timestamps_everywhere ''[12:34 00:00:00]'' = ''[   ]''"
proof (intro conjI)
  show "strip_timestamps_everywhere s = apply_once_each timestamp_rules s"
    by (simp add: strip_timestamps_everywhere_def apply_once_each_def timestamp_rules_def)
qed code_simp+

section \<open>The scenario of the speaker line\<close>

text \<open>
  Claim C6.  For the line \<^verbatim>\<open>Alice: I don't know, right?\<close>, in every format, with
  lower-casing on, minimum length 2 and the built-in stopwords: the speaker prefix is
  removed, the tokens before filtering are i, dont, know, right, and the filtered
  tokens are dont, know.
\<close>

theorem scenario_speaker_line:
  "clean_line ''Alice: I don't know, right?'' fmt = ''I don't know, right?'' \<and>
   tokenize (str_lower ''I don't know, right?'') False = [''i'', ''dont'', ''know'', ''right''] \<and>
   file_tokens default_args (set DEFAULT_STOPWORDS) fmt ''Alice: I don't know, right?''
     = [''dont'', ''know''] \<and>
   ''right'' \<in> set DEFAULT_STOPWORDS \<and> length ''i'' < 2"
  by (cases fmt; hypsubst; code_simp)

section \<open>Decoding\<close>

lemma utf8_decode_ignore: "h = Ignore \<Longrightarrow> \<exists>cs. utf8_decode h bs = Inr cs"
  by (induction h bs rule: utf8_decode.induct) (auto split: prod.splits option.splits sum.splits)

text \<open>
  Claim C9.  Decoding any bytes as UTF-8 with the handler \<^verbatim>\<open>"ignore"\<close> returns a
  text.  The first \<^verbatim>\<open>read_text\<close> of \<^verbatim>\<open>parse_dir\<close> therefore raises exactly when
  reading the file raises an error of the operating system, and the second read is
  reached in that case only.  (With the handler \<^verbatim>\<open>"strict"\<close> a malformed byte does
  raise a decoding error.)
\<close>

theorem utf8_ignore_never_raises:
  "(\<exists>cs. decode Utf8 Ignore bs = Inr cs) \<and>
   (read_text Utf8 Ignore r = Inl x \<longleftrightarrow> (\<exists>e. r = Inl e \<and> x = OSError e)) \<and>
   read_file fp = (if isl (raw fp) then read_text Latin1 Ignore (raw_retry fp)
                   else read_text Utf8 Ignore (raw fp)) \<and>
   decode Utf8 Strict [0xFF] = Inl UnicodeDecodeError"
proof (intro conjI)
  show d: "\<exists>cs. decode Utf8 Ignore bs = Inr cs" for bs
    using utf8_decode_ignore [of Ignore bs] by (simp add: decode_def)
  show "read_text Utf8 Ignore r = Inl x \<longleftrightarrow> (\<exists>e. r = Inl e \<and> x = OSError e)"
  proof (cases r)
    case (Inl e)
    then show ?thesis by (auto simp: read_text_def)
  next
    case (Inr bs)
    with d [of bs] show ?thesis by (auto simp: read_text_def)
  qed
  show "read_file fp = (if isl (raw fp) then read_text Latin1 Ignore (raw_retry fp)
                   else read_text Utf8 Ignore (raw fp))"
  proof (cases "raw fp")
    case (Inl e)
    then show ?thesis by (simp add: read_file_def read_text_def)
  next
    case (Inr bs)
    with d [of bs] show ?thesis by (auto simp: read_file_def read_text_def)
  qed
  show "decode Utf8 Strict [0xFF] = Inl UnicodeDecodeError"
    by (simp add: decode_def utf8_step_def)
qed

section \<open>When a run returns its tables\<close>

text \<open>
  A run with the built-in stopwords returns its tables whenever every file can be
  read, whatever its bytes are.
\<close>

lemma read_file_readable:
  assumes "raw fp = Inr bs"
  shows "\<exists>t. read_file fp = Inr t"
proof -
  from utf8_decode_ignore [of Ignore bs] obtain cs where "utf8_decode Ignore bs = Inr cs" by blast
  with assms show ?thesis by (simp add: read_file_def read_text_def decode_def)
qed

lemma parse_dir_returns:
  assumes "stopwords a = None" "\<forall>fp \<in> set (iter_files root). \<exists>bs. raw fp = Inr bs"
  shows "\<exists>wc nc. parse_dir U fs root a = Inr (wc, nc)"
proof -
  let ?nc0 = "map_of (map (\<lambda>n. (n, [])) (ngrams a))"
  have sw: "load_stopwords U fs (stopwords a) = Inr (set (map widen DEFAULT_STOPWORDS))"
    using assms(1) by (simp add: load_stopwords_def)
  have d0: "set (ngrams a) \<subseteq> dom ?nc0"
    by (auto simp: map_of_orders dom_def)
  have readable: "\<forall>fp \<in> set (iter_files root). \<exists>t. read_file fp = Inr t"
    using assms(2) by (blast dest: read_file_readable)
  from parse_loop_total [OF d0 readable, of U "set (map widen DEFAULT_STOPWORDS)" "[]"]
  show ?thesis using sw by (simp add: parse_dir_def)
qed

end
